theory Spec2Isabelle
  imports Main "HOL-Library.Word"
begin

section \<open>The concurrent LRU cache of pkg/cache\<close>

text \<open>
  The cache of \<^verbatim>\<open>cache.go\<close> keeps its records in three linked structures: an array
  \<^verbatim>\<open>data\<close> of bucket chains (records linked by \<^verbatim>\<open>below\<close>), a recency list
  \<^verbatim>\<open>lru\<close> (a \<^verbatim>\<open>container/list\<close>), and one \<^verbatim>\<open>time.Timer\<close> per record. The
  records are shared between the chains and the list and are mutated in place, so the
  model has an explicit store: a record is an address, \<^verbatim>\<open>*record[V]\<close> is an
  \<open>addr option\<close> (\<open>None\<close> is \<^verbatim>\<open>nil\<close>), and the heap maps every address to the
  record stored there. Go pointers never dangle, so the heap is total; memory that was
  never written holds the zero record.
\<close>

type_synonym addr = nat

text \<open>
  The ways in which a call does not return normally: the three run-time panics of the
  code, a \<^verbatim>\<open>Lock\<close> of a mutex that is already held (the caller waits), and a bucket
  walk that never ends.
\<close>

datatype error = NotLocked | NilDeref | IndexOutOfRange | Deadlock | Diverges

subsection \<open>Timers\<close>

text \<open>
  \<^verbatim>\<open>time.AfterFunc(d, f)\<close> waits for \<^verbatim>\<open>d\<close> to elapse and then calls \<^verbatim>\<open>f\<close> in its own
  goroutine; \<^verbatim>\<open>Stop\<close> prevents the timer from firing and has no effect on a timer that
  has already expired, whose function has been started. A timer is therefore
  \<open>Armed\<close>, then either \<open>Stopped\<close> or \<open>Running\<close> (expired, the goroutine started and
  waiting for the cache lock), and \<open>Finished\<close> once the callback has run. Every
  callback of this program is \<^verbatim>\<open>c.deleteWithLock(i, key)\<close>, so a timer stores the
  captured \<^verbatim>\<open>i\<close> and \<^verbatim>\<open>key\<close>. Time is an integer count of nanoseconds, as
  \<^verbatim>\<open>time.Duration\<close> is.
\<close>

datatype tstatus = Armed | Running | Stopped | Finished

record timer =
  due :: int
  t_idx :: nat
  t_key :: string
  status :: tstatus

subsection \<open>Records and the cache\<close>

text \<open>
  \<^verbatim>\<open>record[V]\<close>: the field \<^verbatim>\<open>t\<close> is \<open>tmr\<close>, an index into the table of timers. The
  field \<^verbatim>\<open>e\<close> is not stored: the list element of a record is created with it by
  \<^verbatim>\<open>PushFront\<close> and carries it as its value, so the model identifies the element
  with the record's address and the recency list is a list of addresses, front first.
\<close>

record 'v rcd =
  key :: string
  val :: 'v
  below :: "addr option"
  tmr :: "nat option"

text \<open>
  \<^verbatim>\<open>lruCache[V]\<close>: \<open>mtx\<close> is the mutex \<^verbatim>\<open>m\<close> (true when held), \<open>csize\<close> is
  \<^verbatim>\<open>size\<close>. The seed stands for the keyed hash it selects, the function
  \<^verbatim>\<open>maphash.String(seed, _)\<close>. The last four fields are the run-time environment of the
  cache: the heap of records with its allocation mark, the timers created so far, and
  the clock.
\<close>

record 'v lruCache =
  mtx :: bool
  csize :: "64 word"
  seed :: "string \<Rightarrow> 64 word"
  lru :: "addr list"
  data :: "addr option list"
  heap :: "addr \<Rightarrow> 'v rcd"
  nxt :: addr
  timers :: "timer list"
  now :: int

definition MaxCacheSize :: nat where
  "MaxCacheSize = 5"

text \<open>The zero record of Go: what freshly allocated memory holds.\<close>

definition zero_rcd :: "'v \<Rightarrow> 'v rcd" where
  "zero_rcd zv = \<lparr>key = [], val = zv, below = None, tmr = None\<rparr>"

text \<open>
  \<^verbatim>\<open>NewCache\<close>: every field but the seed has its zero value. The seed that
  \<^verbatim>\<open>maphash.MakeSeed()\<close> draws and the zero value of the type parameter are arguments.
\<close>

definition NewCache :: "'v \<Rightarrow> (string \<Rightarrow> 64 word) \<Rightarrow> 'v lruCache" where
  "NewCache zv sd =
     \<lparr>mtx = False, csize = 0, seed = sd, lru = [], data = replicate MaxCacheSize None,
      heap = (\<lambda>_. zero_rcd zv), nxt = 0, timers = [], now = 0\<rparr>"

text \<open>\<^verbatim>\<open>hash\<close>: the bucket of a key, read as a natural number.\<close>

definition hash :: "'v lruCache \<Rightarrow> string \<Rightarrow> nat" where
  "hash c s = unat (seed c s mod word_of_nat MaxCacheSize)"

subsection \<open>The library calls\<close>

text \<open>\<^verbatim>\<open>container/list\<close>: the four operations the cache uses.\<close>

definition PushFront :: "addr \<Rightarrow> addr list \<Rightarrow> addr list" where
  "PushFront a l = a # l"

definition MoveToFront :: "addr \<Rightarrow> addr list \<Rightarrow> addr list" where
  "MoveToFront a l = (if a \<in> set l then a # remove1 a l else l)"

definition Remove :: "addr \<Rightarrow> addr list \<Rightarrow> addr list" where
  "Remove a l = remove1 a l"

definition Back :: "addr list \<Rightarrow> addr option" where
  "Back l = (if l = [] then None else Some (last l))"

text \<open>\<^verbatim>\<open>time.AfterFunc\<close> for the callback \<^verbatim>\<open>c.deleteWithLock(i, key)\<close>, and \<^verbatim>\<open>Stop\<close>.\<close>

definition AfterFunc :: "int \<Rightarrow> nat \<Rightarrow> string \<Rightarrow> 'v lruCache \<Rightarrow> nat \<times> 'v lruCache" where
  "AfterFunc ttl i k c =
     (length (timers c),
      c\<lparr>timers := timers c @ [\<lparr>due = now c + ttl, t_idx = i, t_key = k, status = Armed\<rparr>]\<rparr>)"

definition Stop :: "nat \<Rightarrow> 'v lruCache \<Rightarrow> 'v lruCache" where
  "Stop tid c =
     (if tid < length (timers c) \<and> status (timers c ! tid) = Armed
      then c\<lparr>timers := (timers c)[tid := (timers c ! tid)\<lparr>status := Stopped\<rparr>]\<rparr>
      else c)"

subsection \<open>The internal helpers\<close>

text \<open>
  \<^verbatim>\<open>mustBeLocked\<close>: \<^verbatim>\<open>TryLock\<close> succeeds exactly when the mutex is free, and then the
  helper panics.
\<close>

definition mustBeLocked :: "'v lruCache \<Rightarrow> error + unit" where
  "mustBeLocked c = (if mtx c then Inr () else Inl NotLocked)"

text \<open>
  The loop of \<^verbatim>\<open>lookup\<close>, on the pair \<^verbatim>\<open>(rec, above)\<close>. On a cyclic chain without
  the key it runs forever, which is the value \<open>None\<close>.
\<close>

partial_function (option) lookup_loop ::
  "(addr \<Rightarrow> 'v rcd) \<Rightarrow> string \<Rightarrow> addr option \<Rightarrow> addr option \<Rightarrow> (addr option \<times> addr option) option"
where
  "lookup_loop h k rc abv =
     (case rc of
        None \<Rightarrow> Some (None, abv)
      | Some a \<Rightarrow> if key (h a) = k then Some (Some a, abv)
                  else lookup_loop h k (below (h a)) (Some a))"

text \<open>\<^verbatim>\<open>lookup\<close> returns \<^verbatim>\<open>(rec, above, root)\<close>.\<close>

definition lookup ::
  "'v lruCache \<Rightarrow> nat \<Rightarrow> string \<Rightarrow> error + (addr option \<times> addr option \<times> addr option)" where
  "lookup c i k =
     (case mustBeLocked c of
        Inl e \<Rightarrow> Inl e
      | Inr _ \<Rightarrow>
          if \<not> i < MaxCacheSize then Inl IndexOutOfRange
          else (case lookup_loop (heap c) k (data c ! i) None of
                  None \<Rightarrow> Inl Diverges
                | Some (r, abv) \<Rightarrow> Inr (r, abv, data c ! i)))"

text \<open>Assignment to the field \<^verbatim>\<open>below\<close> of the record at an address.\<close>

definition set_below :: "addr \<Rightarrow> addr option \<Rightarrow> 'v lruCache \<Rightarrow> 'v lruCache" where
  "set_below a p c = c\<lparr>heap := (heap c)(a := (heap c a)\<lparr>below := p\<rparr>)\<rparr>"

text \<open>\<^verbatim>\<open>delete\<close>, to be called with the lock held.\<close>

definition delete :: "'v lruCache \<Rightarrow> nat \<Rightarrow> string \<Rightarrow> error + 'v lruCache" where
  "delete c idx k =
     (case mustBeLocked c of
        Inl e \<Rightarrow> Inl e
      | Inr _ \<Rightarrow>
     (case lookup c idx k of
        Inl e \<Rightarrow> Inl e
      | Inr (r, abv, root) \<Rightarrow>
     (case r of
        None \<Rightarrow> Inr c
      | Some ra \<Rightarrow>
     (case tmr (heap c ra) of
        None \<Rightarrow> Inl NilDeref
      | Some tid \<Rightarrow>
          let c1 = Stop tid c in
          (case (if r = root
                 then Inr (c1\<lparr>data := (data c1)[idx := below (heap c1 ra)]\<rparr>)
                 else (case abv of
                         None \<Rightarrow> Inl NilDeref
                       | Some ab \<Rightarrow> Inr (set_below ab (below (heap c1 ra)) c1))) of
             Inl e \<Rightarrow> Inl e
           | Inr c2 \<Rightarrow> Inr (c2\<lparr>lru := Remove ra (lru c2), csize := csize c2 - 1\<rparr>))))))"

text \<open>\<^verbatim>\<open>deleteWithLock\<close>: what a timer calls when it fires.\<close>

definition deleteWithLock :: "'v lruCache \<Rightarrow> nat \<Rightarrow> string \<Rightarrow> error + 'v lruCache" where
  "deleteWithLock c idx k =
     (if mtx c then Inl Deadlock
      else (case delete (c\<lparr>mtx := True\<rparr>) idx k of
              Inl e \<Rightarrow> Inl e
            | Inr c' \<Rightarrow> Inr (c'\<lparr>mtx := False\<rparr>)))"

subsection \<open>Get and Set\<close>

text \<open>
  The block \<^verbatim>\<open>if r != root { above.below = r.below; r.below = root; c.data[i] = r }\<close>
  that \<^verbatim>\<open>Get\<close> and \<^verbatim>\<open>Set\<close> share under the comment ``Bring r to the top''.
\<close>

definition bring_to_top ::
  "nat \<Rightarrow> addr \<Rightarrow> addr option \<Rightarrow> addr option \<Rightarrow> 'v lruCache \<Rightarrow> error + 'v lruCache" where
  "bring_to_top i ra abv root c =
     (if Some ra \<noteq> root
      then (case abv of
              None \<Rightarrow> Inl NilDeref
            | Some ab \<Rightarrow>
                let c1 = set_below ab (below (heap c ra)) c;
                    c2 = set_below ra root c1
                in Inr (c2\<lparr>data := (data c2)[i := Some ra]\<rparr>))
      else Inr c)"

definition Get :: "'v \<Rightarrow> string \<Rightarrow> 'v lruCache \<Rightarrow> error + (('v \<times> bool) \<times> 'v lruCache)" where
  "Get zv k c =
     (let i = hash c k in
      if mtx c then Inl Deadlock
      else let c0 = c\<lparr>mtx := True\<rparr> in
     (case lookup c0 i k of
        Inl e \<Rightarrow> Inl e
      | Inr (r, abv, root) \<Rightarrow>
     (case r of
        None \<Rightarrow> Inr ((zv, False), c0\<lparr>mtx := False\<rparr>)
      | Some ra \<Rightarrow>
     (case bring_to_top i ra abv root c0 of
        Inl e \<Rightarrow> Inl e
      | Inr c1 \<Rightarrow>
          let c2 = c1\<lparr>lru := MoveToFront ra (lru c1)\<rparr>
          in Inr ((val (heap c2 ra), True), c2\<lparr>mtx := False\<rparr>)))))"

text \<open>
  The body of the \<^verbatim>\<open>default\<close> case of \<^verbatim>\<open>Set\<close>, which the eviction case falls
  through to: allocate the record, arm its timer, push it on the recency list and make
  it the head of bucket \<open>i\<close>.
\<close>

definition set_new ::
  "nat \<Rightarrow> string \<Rightarrow> 'v \<Rightarrow> int \<Rightarrow> addr option \<Rightarrow> 'v lruCache \<Rightarrow> 'v lruCache" where
  "set_new i k v ttl root c =
     (let (tid, c1) = AfterFunc ttl i k c;
          r = nxt c1;
          c2 = c1\<lparr>heap := (heap c1)(r := \<lparr>key = k, val = v, below = root, tmr = Some tid\<rparr>),
                  nxt := Suc r\<rparr>;
          c3 = c2\<lparr>lru := PushFront r (lru c2)\<rparr>;
          c4 = c3\<lparr>data := (data c3)[i := Some r]\<rparr>
      in c4\<lparr>csize := csize c4 + 1\<rparr>)"

text \<open>The \<^verbatim>\<open>reset\<close> case of \<^verbatim>\<open>Set\<close>, for the record \<open>ra\<close> that \<^verbatim>\<open>lookup\<close> found.\<close>

definition set_reset ::
  "nat \<Rightarrow> string \<Rightarrow> 'v \<Rightarrow> int \<Rightarrow> addr \<Rightarrow> addr option \<Rightarrow> addr option \<Rightarrow> 'v lruCache
     \<Rightarrow> error + 'v lruCache" where
  "set_reset i k v ttl ra abv root c =
     (case tmr (heap c ra) of
        None \<Rightarrow> Inl NilDeref
      | Some old \<Rightarrow>
          let c1 = Stop old c;
              c2 = c1\<lparr>heap := (heap c1)(ra := (heap c1 ra)\<lparr>val := v\<rparr>)\<rparr>;
              (tid, c3) = AfterFunc ttl i k c2;
              c4 = c3\<lparr>heap := (heap c3)(ra := (heap c3 ra)\<lparr>tmr := Some tid\<rparr>)\<rparr>
          in (case bring_to_top i ra abv root c4 of
                Inl e \<Rightarrow> Inl e
              | Inr c5 \<Rightarrow> Inr (c5\<lparr>lru := MoveToFront ra (lru c5)\<rparr>)))"

text \<open>The eviction case: the victim is the value of \<^verbatim>\<open>c.lru.Back()\<close>.\<close>

definition set_evict ::
  "nat \<Rightarrow> string \<Rightarrow> 'v \<Rightarrow> int \<Rightarrow> addr option \<Rightarrow> 'v lruCache \<Rightarrow> error + 'v lruCache" where
  "set_evict i k v ttl root c =
     (case Back (lru c) of
        None \<Rightarrow> Inl NilDeref
      | Some er \<Rightarrow>
          let root' = (if Some er = root then below (heap c er) else root) in
          (case delete c (hash c (key (heap c er))) (key (heap c er)) of
             Inl e \<Rightarrow> Inl e
           | Inr c1 \<Rightarrow> Inr (set_new i k v ttl root' c1)))"

definition Set :: "string \<Rightarrow> 'v \<Rightarrow> int \<Rightarrow> 'v lruCache \<Rightarrow> error + 'v lruCache" where
  "Set k v ttl c =
     (let i = hash c k in
      if mtx c then Inl Deadlock
      else let c0 = c\<lparr>mtx := True\<rparr> in
     (case lookup c0 i k of
        Inl e \<Rightarrow> Inl e
      | Inr (r, abv, root) \<Rightarrow>
     (case (case r of
              Some ra \<Rightarrow> set_reset i k v ttl ra abv root c0
            | None \<Rightarrow>
                if csize c0 = word_of_nat MaxCacheSize then set_evict i k v ttl root c0
                else Inr (set_new i k v ttl root c0)) of
        Inl e \<Rightarrow> Inl e
      | Inr c1 \<Rightarrow> Inr (c1\<lparr>mtx := False\<rparr>))))"

subsection \<open>The clock and the firing of timers\<close>

text \<open>
  Between two calls time may pass, the runtime may start the callback of an armed timer
  that is due, and a started callback may get the lock and run.
\<close>

definition advance :: "int \<Rightarrow> 'v lruCache \<Rightarrow> 'v lruCache" where
  "advance d c = c\<lparr>now := now c + (if d < 0 then 0 else d)\<rparr>"

definition expire :: "nat \<Rightarrow> 'v lruCache \<Rightarrow> 'v lruCache" where
  "expire tid c =
     (if tid < length (timers c) \<and> status (timers c ! tid) = Armed \<and> due (timers c ! tid) \<le> now c
      then c\<lparr>timers := (timers c)[tid := (timers c ! tid)\<lparr>status := Running\<rparr>]\<rparr>
      else c)"

definition run_callback :: "nat \<Rightarrow> 'v lruCache \<Rightarrow> error + 'v lruCache" where
  "run_callback tid c =
     (if tid < length (timers c) \<and> status (timers c ! tid) = Running
      then deleteWithLock
             (c\<lparr>timers := (timers c)[tid := (timers c ! tid)\<lparr>status := Finished\<rparr>]\<rparr>)
             (t_idx (timers c ! tid)) (t_key (timers c ! tid))
      else Inr c)"

subsection \<open>Bucket chains\<close>

text \<open>
  A bucket chain, read off the heap: \<open>chain h p as\<close> says that following \<^verbatim>\<open>below\<close>
  from the pointer \<open>p\<close> visits exactly the addresses \<open>as\<close>, in this order, and then
  reaches \<^verbatim>\<open>nil\<close>.
\<close>

fun chain :: "(addr \<Rightarrow> 'v rcd) \<Rightarrow> addr option \<Rightarrow> addr list \<Rightarrow> bool" where
  "chain h p [] = (p = None)"
| "chain h p (a # as) = (p = Some a \<and> chain h (below (h a)) as)"

subsection \<open>The invariant\<close>

text \<open>
  The records of bucket \<open>i\<close> that are alive: those on the recency list whose key
  hashes to \<open>i\<close>.
\<close>

definition live :: "'v lruCache \<Rightarrow> nat \<Rightarrow> addr set" where
  "live c i = {a \<in> set (lru c). hash c (key (heap c a)) = i}"

text \<open>The chain of bucket \<open>i\<close> holds exactly the live records of \<open>i\<close>, each once.\<close>

definition bucket :: "'v lruCache \<Rightarrow> nat \<Rightarrow> addr list \<Rightarrow> bool" where
  "bucket c i as \<longleftrightarrow> chain (heap c) (data c ! i) as \<and> distinct as \<and> set as = live c i"

text \<open>
  The invariant of the cache, whoever holds the lock: the array has its length, every
  bucket chain ends and holds the live records of its bucket, the recency list has no
  repetition and no key twice, \<^verbatim>\<open>size\<close> is its length and within the capacity, and
  every record on it is allocated and has a timer.
\<close>

definition cache_inv :: "'v lruCache \<Rightarrow> bool" where
  "cache_inv c \<longleftrightarrow>
     length (data c) = MaxCacheSize \<and>
     (\<forall>i<MaxCacheSize. \<exists>as. bucket c i as) \<and>
     distinct (lru c) \<and>
     inj_on (\<lambda>a. key (heap c a)) (set (lru c)) \<and>
     unat (csize c) = length (lru c) \<and>
     length (lru c) \<le> MaxCacheSize \<and>
     (\<forall>a\<in>set (lru c). a < nxt c \<and> (\<exists>tid<length (timers c). tmr (heap c a) = Some tid))"

text \<open>The states between two calls: the invariant holds and the lock is free.\<close>

definition well_formed :: "'v lruCache \<Rightarrow> bool" where
  "well_formed c \<longleftrightarrow> cache_inv c \<and> \<not> mtx c"

text \<open>What the cache holds, most recently touched first.\<close>

definition entries :: "'v lruCache \<Rightarrow> (string \<times> 'v) list" where
  "entries c = map (\<lambda>a. (key (heap c a), val (heap c a))) (lru c)"

subsection \<open>Runs of the cache\<close>

text \<open>
  What can happen to a cache between its creation and any later moment: a caller's
  \<^verbatim>\<open>Get\<close> or \<^verbatim>\<open>Set\<close>, the passing of time, the expiry of a timer and the run of
  an expired timer's callback. Each is one step, since the calls and the callback work
  under the lock.
\<close>

datatype 'v event = CallGet string | CallSet string 'v int | Tick int | Expire nat | Callback nat

fun step :: "'v \<Rightarrow> 'v event \<Rightarrow> 'v lruCache \<Rightarrow> error + 'v lruCache" where
  "step zv (CallGet k) c = (case Get zv k c of Inl e \<Rightarrow> Inl e | Inr (_, c') \<Rightarrow> Inr c')"
| "step zv (CallSet k v ttl) c = Set k v ttl c"
| "step zv (Tick d) c = Inr (advance d c)"
| "step zv (Expire tid) c = Inr (expire tid c)"
| "step zv (Callback tid) c = run_callback tid c"

fun run :: "'v \<Rightarrow> 'v event list \<Rightarrow> 'v lruCache \<Rightarrow> error + 'v lruCache" where
  "run zv [] c = Inr c"
| "run zv (e # es) c = (case step zv e c of Inl x \<Rightarrow> Inl x | Inr c' \<Rightarrow> run zv es c')"

text \<open>Every timer carries the bucket of its key, as the closures of \<^verbatim>\<open>Set\<close> do.\<close>

definition timers_ok :: "'v lruCache \<Rightarrow> bool" where
  "timers_ok c \<longleftrightarrow> (\<forall>t\<in>set (timers c). t_idx t = hash c (t_key t))"

text \<open>The invariant of the runs.\<close>

definition reachable_inv :: "'v lruCache \<Rightarrow> bool" where
  "reachable_inv c \<longleftrightarrow> well_formed c \<and> timers_ok c"

text \<open>A seed for the examples: the hash of a key is its length.\<close>

definition seed0 :: "string \<Rightarrow> 64 word" where
  "seed0 s = word_of_nat (length s)"

text \<open>What a caller of \<^verbatim>\<open>Get\<close> sees: the pair returned, without the state.\<close>

definition Get_result :: "'v \<Rightarrow> string \<Rightarrow> 'v lruCache \<Rightarrow> error + ('v \<times> bool)" where
  "Get_result zv k c = (case Get zv k c of Inl e \<Rightarrow> Inl e | Inr (r, _) \<Rightarrow> Inr r)"

text \<open>Five calls that fill a new cache, one key in each bucket under \<open>seed0\<close>.\<close>

definition five :: "nat event list" where
  "five = [CallSet ''a'' 1 10, CallSet ''bb'' 2 10, CallSet ''ccc'' 3 10, CallSet ''dddd'' 4 10,
           CallSet ''eeeee'' 5 10]"

text \<open>Four calls that put three records on the chain of bucket 1.\<close>

definition six :: "nat event list" where
  "six = [CallSet ''a'' 1 10, CallSet ''bb'' 2 10, CallSet ''ffffff'' 6 10, CallSet ''k'' 3 10]"

text \<open>
  The chains and the recency list hold the same records: every bucket chain ends, has
  no record twice and only records of the recency list, and every record of the recency
  list is on the chain of exactly one bucket.
\<close>

definition consistent :: "'v lruCache \<Rightarrow> bool" where
  "consistent c \<longleftrightarrow>
     (\<forall>i<MaxCacheSize. \<exists>as. chain (heap c) (data c ! i) as \<and> distinct as \<and>
                             set as \<subseteq> set (lru c)) \<and>
     (\<forall>a\<in>set (lru c). \<exists>!i. i < MaxCacheSize \<and>
                             (\<exists>as. chain (heap c) (data c ! i) as \<and> a \<in> set as))"

text \<open>The capacity of a cache: the length of its array of buckets.\<close>

definition capacity :: "'v lruCache \<Rightarrow> nat" where
  "capacity c = length (data c)"

subsection \<open>The order of touches\<close>

text \<open>The key an event touches: the key of a \<^verbatim>\<open>Get\<close> or a \<^verbatim>\<open>Set\<close>.\<close>

fun touches :: "'v event \<Rightarrow> string option" where
  "touches (CallGet k) = Some k"
| "touches (CallSet k v ttl) = Some k"
| "touches (Tick d) = None"
| "touches (Expire tid) = None"
| "touches (Callback tid) = None"

text \<open>
  The position in a run, counted from 1, of the last event that touches \<open>k\<close>, and 0
  when no event does: the later the last touch, the larger the number.
\<close>

fun last_touch :: "'v event list \<Rightarrow> string \<Rightarrow> nat" where
  "last_touch [] k = 0"
| "last_touch (e # es) k =
     (if last_touch es k \<noteq> 0 then Suc (last_touch es k)
      else if touches e = Some k then 1 else 0)"

text \<open>
  The entries are in the order of their last touches, the latest first, and each has
  been touched.
\<close>

definition recency_sorted :: "'v event list \<Rightarrow> 'v lruCache \<Rightarrow> bool" where
  "recency_sorted es c \<longleftrightarrow>
     sorted_wrt (\<lambda>p q. last_touch es (fst q) < last_touch es (fst p)) (entries c) \<and>
     (\<forall>p\<in>set (entries c). 0 < last_touch es (fst p))"

text \<open>The five insertions, then a hit on the oldest key and a refresh of the next.\<close>

definition touched :: "nat event list" where
  "touched = five @ [CallGet ''a'', CallSet ''bb'' 7 10]"

section \<open>Chains and the bucket walk\<close>

lemma chain_unique: "chain h p as \<Longrightarrow> chain h p bs \<Longrightarrow> as = bs"
proof (induction as arbitrary: p bs)
  case Nil
  then show ?case by (cases bs) auto
next
  case (Cons a as)
  then show ?case by (cases bs) auto
qed

lemma chain_frame:
  "\<forall>a\<in>set as. below (h' a) = below (h a) \<Longrightarrow> chain h' p as = chain h p as"
  by (induction as arbitrary: p) auto

lemma chain_suffix: "chain h p (xs @ a # ys) \<Longrightarrow> chain h (below (h a)) ys"
  by (induction xs arbitrary: p) auto

lemma chain_unlink:
  "chain h p (xs @ a # ys) \<Longrightarrow> distinct (xs @ a # ys) \<Longrightarrow> xs \<noteq> [] \<Longrightarrow>
   chain (h(last xs := (h (last xs))\<lparr>below := below (h a)\<rparr>)) p (xs @ ys)"
proof (induction xs arbitrary: p)
  case Nil
  then show ?case by simp
next
  case (Cons x xs)
  show ?case
  proof (cases "xs = []")
    case True
    with Cons.prems have "chain h (below (h a)) ys" "x \<notin> set ys" "p = Some x" by auto
    then have "chain (h(x := (h x)\<lparr>below := below (h a)\<rparr>)) (below (h a)) ys"
      by (subst chain_frame) auto
    with True \<open>p = Some x\<close> show ?thesis by (simp add: fun_upd_def)
  next
    case False
    with Cons.prems have c: "chain h (below (h x)) (xs @ a # ys)" and d: "distinct (xs @ a # ys)"
      and px: "p = Some x" and nx: "x \<noteq> last xs" by auto
    from Cons.IH [OF c d False] nx px False show ?thesis by simp
  qed
qed

lemma lookup_loop_miss:
  "chain h p as \<Longrightarrow> \<forall>a\<in>set as. key (h a) \<noteq> k \<Longrightarrow>
   lookup_loop h k p ab = Some (None, if as = [] then ab else Some (last as))"
proof (induction as arbitrary: p ab)
  case Nil
  then show ?case by (simp add: lookup_loop.simps)
next
  case (Cons a as)
  then have "lookup_loop h k p ab = lookup_loop h k (below (h a)) (Some a)"
    by (subst lookup_loop.simps) simp
  also have "\<dots> = Some (None, if as = [] then Some a else Some (last as))"
    using Cons by simp
  finally show ?case by simp
qed

lemma lookup_loop_hit:
  "chain h p (xs @ a # ys) \<Longrightarrow> \<forall>x\<in>set xs. key (h x) \<noteq> k \<Longrightarrow> key (h a) = k \<Longrightarrow>
   lookup_loop h k p ab = Some (Some a, if xs = [] then ab else Some (last xs))"
proof (induction xs arbitrary: p ab)
  case Nil
  then show ?case by (subst lookup_loop.simps) simp
next
  case (Cons x xs)
  then have "lookup_loop h k p ab = lookup_loop h k (below (h x)) (Some x)"
    by (subst lookup_loop.simps) simp
  also have "\<dots> = Some (Some a, if xs = [] then Some x else Some (last xs))"
    using Cons by simp
  finally show ?case by simp
qed

section \<open>The lock assertion\<close>

lemma lookup_unlocked: "\<not> mtx c \<Longrightarrow> lookup c i k = Inl NotLocked"
  by (simp add: lookup_def mustBeLocked_def)

lemma lookup_locked: "mtx c \<Longrightarrow> lookup c i k \<noteq> Inl NotLocked"
  by (simp add: lookup_def mustBeLocked_def split: option.splits prod.splits)

lemma delete_locked: "mtx c \<Longrightarrow> delete c i k \<noteq> Inl NotLocked"
  using lookup_locked [of c i k]
  by (auto simp add: delete_def mustBeLocked_def Let_def split: sum.splits option.splits prod.splits)

lemma bring_to_top_not_NotLocked: "bring_to_top i ra abv root c \<noteq> Inl NotLocked"
  by (simp add: bring_to_top_def Let_def split: option.splits)

text \<open>
  C8. A helper called while the mutex is free panics in \<^verbatim>\<open>mustBeLocked\<close>:
  \<^verbatim>\<open>lookup\<close> and \<^verbatim>\<open>delete\<close> return the panic and no state. With the mutex held the
  assertion passes and neither helper can end in that panic; and the three callers
  \<^verbatim>\<open>Get\<close>, \<^verbatim>\<open>Set\<close> and \<^verbatim>\<open>deleteWithLock\<close> take the lock first, so they never
  end in it either.
\<close>

theorem helpers_need_lock:
  "(\<not> mtx c \<longrightarrow> mustBeLocked c = Inl NotLocked \<and> lookup c i k = Inl NotLocked
                 \<and> delete c i k = Inl NotLocked)
   \<and> (mtx c \<longrightarrow> mustBeLocked c = Inr () \<and> lookup c i k \<noteq> Inl NotLocked
                 \<and> delete c i k \<noteq> Inl NotLocked)
   \<and> Get zv k c \<noteq> Inl NotLocked \<and> Set k v ttl c \<noteq> Inl NotLocked
   \<and> deleteWithLock c i k \<noteq> Inl NotLocked"
proof -
  have A: "\<not> mtx c \<Longrightarrow> delete c i k = Inl NotLocked"
    by (simp add: delete_def mustBeLocked_def)
  have B: "deleteWithLock c i k \<noteq> Inl NotLocked"
    using delete_locked [of "c\<lparr>mtx := True\<rparr>" i k]
    by (auto simp add: deleteWithLock_def split: sum.splits)
  have C: "Get zv k c \<noteq> Inl NotLocked"
    using lookup_locked [of "c\<lparr>mtx := True\<rparr>" "hash c k" k]
    by (auto simp add: Get_def Let_def bring_to_top_not_NotLocked
        split: sum.splits option.splits prod.splits)
  have R: "set_reset j k v ttl ra abv root d \<noteq> Inl NotLocked" for j ra abv root d
    by (auto simp add: set_reset_def Let_def bring_to_top_not_NotLocked
        split: sum.splits option.splits prod.splits)
  have E: "mtx d \<Longrightarrow> set_evict j k v ttl root d \<noteq> Inl NotLocked" for j root d
    using delete_locked [of d]
    by (auto simp add: set_evict_def Let_def split: sum.splits option.splits)
  have D: "Set k v ttl c \<noteq> Inl NotLocked"
    using lookup_locked [of "c\<lparr>mtx := True\<rparr>" "hash c k" k] R E [of "c\<lparr>mtx := True\<rparr>"]
    by (auto simp add: Set_def Let_def split: sum.splits option.splits prod.splits if_splits)
  show ?thesis
    using A B C D lookup_unlocked [of c i k] lookup_locked [of c i k] delete_locked [of c i k]
    by (simp add: mustBeLocked_def)
qed

theorem helpers_need_lock_witness:
  "lookup (NewCache (0::nat) seed0) 1 ''a'' = Inl NotLocked
   \<and> delete (NewCache (0::nat) seed0) 1 ''a'' = Inl NotLocked
   \<and> lookup ((NewCache (0::nat) seed0)\<lparr>mtx := True\<rparr>) 1 ''a'' = Inr (None, None, None)
   \<and> delete ((NewCache (0::nat) seed0)\<lparr>mtx := True\<rparr>) 1 ''a''
       = Inr ((NewCache (0::nat) seed0)\<lparr>mtx := True\<rparr>)"
  using helpers_need_lock [of "NewCache (0::nat) seed0" 1 "''a''"]
  by (simp add: NewCache_def lookup_def delete_def mustBeLocked_def MaxCacheSize_def
      lookup_loop.simps)

section \<open>The invariant is kept\<close>

lemma hash_less: "hash c k < MaxCacheSize"
  by (simp add: hash_def MaxCacheSize_def unat_mod)

lemma unat_dec: "unat (w :: 64 word) = Suc n \<Longrightarrow> unat (w - 1) = n"
  by (metis diff_Suc_1 unat_minus_one unat_eq_zero nat.distinct(1))

lemma unat_inc: "unat (w :: 64 word) < MaxCacheSize \<Longrightarrow> unat (w + 1) = Suc (unat w)"
  by (simp add: MaxCacheSize_def unat_word_ariths)

lemma csize_full: "((w :: 64 word) = word_of_nat MaxCacheSize) = (unat w = MaxCacheSize)"
  by (simp add: MaxCacheSize_def word_unat_eq_iff)

lemma live_disjoint: "a \<in> live c i \<Longrightarrow> a \<in> live c j \<Longrightarrow> i = j"
  by (simp add: live_def)

lemma live_eq:
  "seed c' = seed c \<Longrightarrow> set (lru c') = set (lru c) \<Longrightarrow>
   \<forall>b. key (heap c' b) = key (heap c b) \<Longrightarrow> live c' j = live c j"
  by (simp add: live_def hash_def)

lemma live_remove:
  "seed c' = seed c \<Longrightarrow> lru c' = remove1 a (lru c) \<Longrightarrow> distinct (lru c) \<Longrightarrow>
   \<forall>b. key (heap c' b) = key (heap c b) \<Longrightarrow> live c' j = live c j - {a}"
  by (auto simp add: live_def hash_def)

lemma inv_same:
  assumes inv: "cache_inv c"
    and sd: "seed c' = seed c"
    and l: "set (lru c') = set (lru c)" "distinct (lru c')"
    and sz: "csize c' = csize c"
    and keys: "\<forall>b. key (heap c' b) = key (heap c b)"
    and nx: "nxt c \<le> nxt c'"
    and tm: "\<forall>b\<in>set (lru c). \<exists>tid<length (timers c'). tmr (heap c' b) = Some tid"
    and len: "length (data c') = MaxCacheSize"
    and ch: "\<And>j as. j < MaxCacheSize \<Longrightarrow> bucket c j as \<Longrightarrow>
               \<exists>as'. chain (heap c') (data c' ! j) as' \<and> distinct as' \<and> set as' = set as"
  shows "cache_inv c'"
proof -
  have lv: "live c' j = live c j" for j
    using sd l(1) keys by (rule live_eq)
  have ll: "length (lru c') = length (lru c)"
    using inv l by (metis cache_inv_def distinct_card)
  have b: "\<exists>as. bucket c' j as" if "j < MaxCacheSize" for j
  proof -
    from inv that obtain as where as: "bucket c j as" by (auto simp add: cache_inv_def)
    from ch [OF that as] obtain as' where
      "chain (heap c') (data c' ! j) as'" "distinct as'" "set as' = set as" by blast
    with as lv show ?thesis by (auto simp add: bucket_def)
  qed
  have inj: "inj_on (\<lambda>a. key (heap c' a)) (set (lru c'))"
    using inv keys l(1) by (simp add: cache_inv_def)
  have t: "\<forall>a\<in>set (lru c'). a < nxt c' \<and> (\<exists>tid<length (timers c'). tmr (heap c' a) = Some tid)"
    using inv tm nx l(1) by (fastforce simp add: cache_inv_def)
  show ?thesis
    unfolding cache_inv_def using inv b inj t len l(2) ll sz
    by (simp add: cache_inv_def)
qed

lemma inv_remove:
  assumes inv: "cache_inv c"
    and a: "a \<in> set (lru c)"
    and sd: "seed c' = seed c"
    and l: "lru c' = remove1 a (lru c)"
    and sz: "csize c' = csize c - 1"
    and keys: "\<forall>b. key (heap c' b) = key (heap c b)"
    and nx: "nxt c \<le> nxt c'"
    and tm: "\<forall>b\<in>set (lru c). \<exists>tid<length (timers c'). tmr (heap c' b) = Some tid"
    and len: "length (data c') = MaxCacheSize"
    and ch: "\<And>j as. j < MaxCacheSize \<Longrightarrow> bucket c j as \<Longrightarrow>
               \<exists>as'. chain (heap c') (data c' ! j) as' \<and> distinct as' \<and> set as' = set as - {a}"
  shows "cache_inv c'"
proof -
  from inv have d: "distinct (lru c)" by (simp add: cache_inv_def)
  have lv: "live c' j = live c j - {a}" for j
    using sd l d keys by (rule live_remove)
  have sl: "set (lru c') = set (lru c) - {a}"
    using l d by simp
  from a obtain n where n: "length (lru c) = Suc n"
    by (cases "lru c") auto
  have ll: "length (lru c') = n"
    using l a n by (simp add: length_remove1)
  have b: "\<exists>as. bucket c' j as" if "j < MaxCacheSize" for j
  proof -
    from inv that obtain as where as: "bucket c j as" by (auto simp add: cache_inv_def)
    from ch [OF that as] obtain as' where
      "chain (heap c') (data c' ! j) as'" "distinct as'" "set as' = set as - {a}" by blast
    with as lv show ?thesis by (auto simp add: bucket_def)
  qed
  have inj: "inj_on (\<lambda>a. key (heap c' a)) (set (lru c'))"
    using inv keys sl by (auto simp add: cache_inv_def inj_on_def)
  have t: "\<forall>a\<in>set (lru c'). a < nxt c' \<and> (\<exists>tid<length (timers c'). tmr (heap c' a) = Some tid)"
    using inv tm nx sl by (fastforce simp add: cache_inv_def)
  have u: "unat (csize c') = n"
    using inv n sz by (simp add: cache_inv_def unat_dec)
  have dl: "distinct (lru c')" using d l by simp
  show ?thesis
    unfolding cache_inv_def using inv b inj t len dl ll u n
    by (simp add: cache_inv_def)
qed

subsection \<open>Lookup and delete\<close>

lemma Stop_fields:
  "mtx (Stop tid c) = mtx c" "csize (Stop tid c) = csize c" "seed (Stop tid c) = seed c"
  "lru (Stop tid c) = lru c" "data (Stop tid c) = data c" "heap (Stop tid c) = heap c"
  "nxt (Stop tid c) = nxt c" "now (Stop tid c) = now c"
  "length (timers (Stop tid c)) = length (timers c)"
  by (simp_all add: Stop_def)

lemma set_below_fields:
  "mtx (set_below a p c) = mtx c" "csize (set_below a p c) = csize c"
  "seed (set_below a p c) = seed c" "lru (set_below a p c) = lru c"
  "data (set_below a p c) = data c" "nxt (set_below a p c) = nxt c"
  "now (set_below a p c) = now c" "timers (set_below a p c) = timers c"
  "heap (set_below a p c) = (heap c)(a := (heap c a)\<lparr>below := p\<rparr>)"
  by (simp_all add: set_below_def)

lemma lookup_miss:
  assumes "mtx c" "i < MaxCacheSize" "chain (heap c) (data c ! i) as"
    and "\<forall>a\<in>set as. key (heap c a) \<noteq> k"
  shows "lookup c i k = Inr (None, if as = [] then None else Some (last as), data c ! i)"
  using assms lookup_loop_miss [of "heap c" "data c ! i" as k None]
  by (simp add: lookup_def mustBeLocked_def)

lemma lookup_hit:
  assumes "mtx c" "i < MaxCacheSize" "chain (heap c) (data c ! i) (xs @ a # ys)"
    and "\<forall>x\<in>set xs. key (heap c x) \<noteq> k" "key (heap c a) = k"
  shows "lookup c i k = Inr (Some a, if xs = [] then None else Some (last xs), data c ! i)"
  using assms lookup_loop_hit [of "heap c" "data c ! i" xs a ys k None]
  by (simp add: lookup_def mustBeLocked_def)

lemma inv_bucket: "cache_inv c \<Longrightarrow> i < MaxCacheSize \<Longrightarrow> \<exists>as. bucket c i as"
  by (simp add: cache_inv_def)

lemma find_record:
  assumes inv: "cache_inv c" and a: "a \<in> set (lru c)"
  shows "\<exists>xs ys. bucket c (hash c (key (heap c a))) (xs @ a # ys) \<and>
           (\<forall>x\<in>set xs \<union> set ys. key (heap c x) \<noteq> key (heap c a))"
proof -
  let ?i = "hash c (key (heap c a))"
  from inv_bucket [OF inv hash_less] obtain as where as: "bucket c ?i as"
    by blast
  with a have "a \<in> set as" by (simp add: bucket_def live_def)
  then obtain xs ys where s: "as = xs @ a # ys" by (auto dest: split_list)
  have "key (heap c x) \<noteq> key (heap c a)" if "x \<in> set xs \<union> set ys" for x
  proof -
    from that as s have "x \<in> set (lru c)" "x \<noteq> a"
      by (auto simp add: bucket_def live_def)
    with inv a show ?thesis by (auto simp add: cache_inv_def inj_on_def)
  qed
  with as s show ?thesis by blast
qed

lemma absent_bucket:
  assumes "bucket c i as"
    and "(\<forall>b\<in>set (lru c). key (heap c b) \<noteq> k) \<or> i \<noteq> hash c k"
  shows "\<forall>a\<in>set as. key (heap c a) \<noteq> k"
  using assms by (auto simp add: bucket_def live_def)

lemma delete_at:
  assumes m: "mtx c" and i: "i < MaxCacheSize"
    and ch: "chain (heap c) (data c ! i) (xs @ a # ys)"
    and d: "distinct (xs @ a # ys)"
    and nk: "\<forall>x\<in>set xs. key (heap c x) \<noteq> k" and k: "key (heap c a) = k"
    and t: "tmr (heap c a) = Some tid"
  shows "delete c i k =
     Inr ((if xs = [] then (Stop tid c)\<lparr>data := (data c)[i := below (heap c a)]\<rparr>
           else set_below (last xs) (below (heap c a)) (Stop tid c))
          \<lparr>lru := remove1 a (lru c), csize := csize c - 1\<rparr>)"
proof (cases "xs = []")
  case True
  with ch have "data c ! i = Some a" by simp
  with True m t lookup_hit [OF m i ch nk k] show ?thesis
    by (simp add: delete_def mustBeLocked_def Stop_fields Remove_def)
next
  case False
  then obtain x xs' where "xs = x # xs'" by (cases xs) auto
  with ch d have "data c ! i = Some x" "x \<noteq> a" by auto
  then have "data c ! i \<noteq> Some a" by simp
  with False m t lookup_hit [OF m i ch nk k] show ?thesis
    by (simp add: delete_def mustBeLocked_def Stop_fields set_below_fields Remove_def)
qed

lemma delete_absent:
  assumes "mtx c" "i < MaxCacheSize" "chain (heap c) (data c ! i) as"
    and "\<forall>a\<in>set as. key (heap c a) \<noteq> k"
  shows "delete c i k = Inr c"
  using assms lookup_miss [OF assms] by (simp add: delete_def mustBeLocked_def)

lemma delete_present:
  assumes inv: "cache_inv c" and m: "mtx c" and a: "a \<in> set (lru c)"
  shows "\<exists>c'. delete c (hash c (key (heap c a))) (key (heap c a)) = Inr c' \<and>
           cache_inv c' \<and> mtx c' \<and> lru c' = remove1 a (lru c) \<and>
           csize c' = csize c - 1 \<and> seed c' = seed c \<and> nxt c' = nxt c \<and> now c' = now c \<and>
           (\<exists>tid. timers c' = timers (Stop tid c)) \<and>
           (\<forall>b. key (heap c' b) = key (heap c b) \<and> val (heap c' b) = val (heap c b)) \<and>
           (\<forall>j<MaxCacheSize. data c' ! j =
               (if data c ! j = Some a then below (heap c a) else data c ! j))"
proof -
  let ?k = "key (heap c a)"
  let ?i = "hash c ?k"
  have i: "?i < MaxCacheSize" by (rule hash_less)
  from find_record [OF inv a] obtain xs ys where
    b: "bucket c ?i (xs @ a # ys)" and nk: "\<forall>x\<in>set xs \<union> set ys. key (heap c x) \<noteq> ?k"
    by blast
  from b have ch: "chain (heap c) (data c ! ?i) (xs @ a # ys)"
    and d: "distinct (xs @ a # ys)" and lv: "set (xs @ a # ys) = live c ?i"
    by (simp_all add: bucket_def)
  from inv a obtain tid where t: "tmr (heap c a) = Some tid" "tid < length (timers c)"
    by (auto simp add: cache_inv_def)
  from inv have len: "length (data c) = MaxCacheSize" by (simp add: cache_inv_def)
  define c' where "c' = (if xs = [] then (Stop tid c)\<lparr>data := (data c)[?i := below (heap c a)]\<rparr>
           else set_below (last xs) (below (heap c a)) (Stop tid c))
          \<lparr>lru := remove1 a (lru c), csize := csize c - 1\<rparr>"
  have del: "delete c ?i ?k = Inr c'"
    unfolding c'_def using nk by (intro delete_at [OF m i ch d _ _ t(1)]) auto
  have f: "seed c' = seed c" "lru c' = remove1 a (lru c)" "csize c' = csize c - 1"
    "nxt c' = nxt c" "now c' = now c" "length (timers c') = length (timers c)" "mtx c' = mtx c"
    "length (data c') = MaxCacheSize"
    by (simp_all add: c'_def Stop_fields set_below_fields len)
  have hp: "heap c' = (if xs = [] then heap c
                       else (heap c)(last xs := (heap c (last xs))\<lparr>below := below (heap c a)\<rparr>))"
    by (simp add: c'_def Stop_fields set_below_fields)
  have dt: "data c' = (if xs = [] then (data c)[?i := below (heap c a)] else data c)"
    by (simp add: c'_def Stop_fields set_below_fields)
  have kv: "\<forall>b. key (heap c' b) = key (heap c b) \<and> val (heap c' b) = val (heap c b)
              \<and> tmr (heap c' b) = tmr (heap c b)"
    by (simp add: hp)
  have hd_a: "data c ! ?i = Some a \<longleftrightarrow> xs = []"
    using ch d by (cases xs) auto
  have dj: "data c' ! j = (if data c ! j = Some a then below (heap c a) else data c ! j)"
    if j: "j < MaxCacheSize" for j
  proof (cases "j = ?i")
    case True
    then show ?thesis using hd_a len j by (simp add: dt)
  next
    case False
    from inv_bucket [OF inv j] obtain as where as: "bucket c j as" by blast
    have "data c ! j \<noteq> Some a"
    proof
      assume "data c ! j = Some a"
      with as have "a \<in> set as" by (cases as) (auto simp add: bucket_def)
      with as have "a \<in> live c j" by (simp add: bucket_def)
      moreover from lv have "a \<in> live c ?i" by auto
      ultimately show False using False by (auto dest: live_disjoint)
    qed
    with False show ?thesis by (simp add: dt)
  qed
  have chj: "\<exists>as'. chain (heap c') (data c' ! j) as' \<and> distinct as' \<and> set as' = set as - {a}"
    if j: "j < MaxCacheSize" and as: "bucket c j as" for j as
  proof (cases "j = ?i")
    case True
    with as b have eq: "as = xs @ a # ys"
      by (auto simp add: bucket_def dest: chain_unique)
    have "chain (heap c') (data c' ! ?i) (xs @ ys)"
    proof (cases "xs = []")
      case True
      with ch have "chain (heap c) (below (heap c a)) ys" by simp
      with True i len show ?thesis by (simp add: hp dt)
    next
      case False
      with chain_unlink [OF ch d False] show ?thesis by (simp add: hp dt)
    qed
    with d eq True show ?thesis
      by (intro exI [of _ "xs @ ys"]) auto
  next
    case False
    have na: "x \<notin> set as" if "x \<in> set (xs @ a # ys)" for x
    proof
      assume "x \<in> set as"
      with as have "x \<in> live c j" by (simp add: bucket_def)
      moreover from that lv have "x \<in> live c ?i" by blast
      ultimately show False using False by (auto dest: live_disjoint)
    qed
    have "last xs \<notin> set as" if "xs \<noteq> []" using that na [of "last xs"] by simp
    then have "\<forall>x\<in>set as. below (heap c' x) = below (heap c x)"
      by (auto simp add: hp)
    then have "chain (heap c') (data c ! j) as = chain (heap c) (data c ! j) as"
      by (rule chain_frame)
    moreover have "data c' ! j = data c ! j" using False by (simp add: dt)
    moreover have "a \<notin> set as" using na [of a] by simp
    ultimately show ?thesis using as by (intro exI [of _ as]) (simp add: bucket_def)
  qed
  have tm: "\<forall>b\<in>set (lru c). \<exists>tid<length (timers c'). tmr (heap c' b) = Some tid"
    using inv kv f(6) by (simp add: cache_inv_def)
  have "cache_inv c'"
    using inv a f(1) f(2) f(3) _ _ tm f(8) chj
    by (rule inv_remove) (simp_all add: kv f)
  moreover have "\<exists>tid. timers c' = timers (Stop tid c)"
    by (intro exI [of _ tid]) (simp add: c'_def set_below_fields)
  ultimately show ?thesis using del f kv dj m by auto
qed

subsection \<open>Promotion inside a bucket\<close>

lemma hash_seed: "seed c' = seed c \<Longrightarrow> hash c' = hash c"
  by (rule ext) (simp add: hash_def)

lemma bucket_same:
  assumes "bucket c j as" "seed c' = seed c" "set (lru c') = set (lru c)"
    and "\<forall>b. key (heap c' b) = key (heap c b)"
    and "\<forall>b\<in>set as. below (heap c' b) = below (heap c b)"
    and "data c' ! j = data c ! j"
  shows "bucket c' j as"
  using assms live_eq [of c' c j] chain_frame [of as "heap c'" "heap c" "data c ! j"]
  by (simp add: bucket_def)

lemma bring_to_top_at:
  assumes ch: "chain (heap c) (data c ! i) (xs @ a # ys)"
    and d: "distinct (xs @ a # ys)"
  shows "\<exists>c'. bring_to_top i a (if xs = [] then None else Some (last xs)) (data c ! i) c = Inr c' \<and>
           (i < length (data c) \<longrightarrow> chain (heap c') (data c' ! i) (a # xs @ ys)) \<and>
           mtx c' = mtx c \<and> csize c' = csize c \<and> seed c' = seed c \<and> lru c' = lru c \<and>
           nxt c' = nxt c \<and> now c' = now c \<and> timers c' = timers c \<and>
           length (data c') = length (data c) \<and>
           (\<forall>j. j \<noteq> i \<longrightarrow> data c' ! j = data c ! j) \<and>
           (\<forall>b. key (heap c' b) = key (heap c b) \<and> val (heap c' b) = val (heap c b) \<and>
                tmr (heap c' b) = tmr (heap c b)) \<and>
           (\<forall>b. b \<notin> set (xs @ [a]) \<longrightarrow> heap c' b = heap c b)"
proof (cases "xs = []")
  case True
  with ch have "data c ! i = Some a" by simp
  with True ch show ?thesis by (simp add: bring_to_top_def)
next
  case False
  then obtain x xs' where x: "xs = x # xs'" by (cases xs) auto
  with ch d have r: "data c ! i = Some x" "x \<noteq> a" by auto
  define h1 where "h1 = (heap c)(last xs := (heap c (last xs))\<lparr>below := below (heap c a)\<rparr>)"
  define h2 where "h2 = h1(a := (h1 a)\<lparr>below := data c ! i\<rparr>)"
  define c' where "c' = c\<lparr>heap := h2, data := (data c)[i := Some a]\<rparr>"
  have run: "bring_to_top i a (if xs = [] then None else Some (last xs)) (data c ! i) c = Inr c'"
    using False r by (simp add: bring_to_top_def Let_def set_below_def c'_def h2_def h1_def)
  have "chain h1 (data c ! i) (xs @ ys)"
    unfolding h1_def using ch d False by (rule chain_unlink)
  moreover have "\<forall>b\<in>set (xs @ ys). below (h2 b) = below (h1 b)"
    using d by (auto simp add: h2_def)
  ultimately have "chain h2 (data c ! i) (xs @ ys)"
    using chain_frame [of "xs @ ys" h2 h1 "data c ! i"] by simp
  moreover have "below (h2 a) = data c ! i" by (simp add: h2_def)
  ultimately have c2: "chain h2 (Some a) (a # xs @ ys)" by simp
  have la: "last xs \<in> set xs" using False by simp
  have kv: "key (h2 b) = key (heap c b) \<and> val (h2 b) = val (heap c b) \<and> tmr (h2 b) = tmr (heap c b)"
    for b by (simp add: h2_def h1_def)
  have fr: "b \<notin> set (xs @ [a]) \<Longrightarrow> h2 b = heap c b" for b
    using la by (auto simp add: h2_def h1_def)
  show ?thesis
    using run c2 kv fr by (intro exI [of _ c']) (simp add: c'_def)
qed

lemma cache_inv_mtx [simp]: "cache_inv (c\<lparr>mtx := b\<rparr>) = cache_inv c"
  by (simp add: cache_inv_def bucket_def live_def hash_def)

lemma bucket_mtx [simp]: "bucket (c\<lparr>mtx := b\<rparr>) = bucket c"
  by (intro ext) (simp add: bucket_def live_def hash_def)

lemma hash_mtx [simp]: "hash (c\<lparr>mtx := b\<rparr>) = hash c"
  by (intro ext) (simp add: hash_def)

lemma entries_mtx [simp]: "entries (c\<lparr>mtx := b\<rparr>) = entries c"
  by (simp add: entries_def)

text \<open>Promotion inside the bucket keeps the invariant.\<close>

lemma bring_to_top_inv:
  assumes inv: "cache_inv c" and a: "a \<in> set (lru c)"
    and b: "bucket c (hash c (key (heap c a))) (xs @ a # ys)"
  shows "\<exists>c'. bring_to_top (hash c (key (heap c a))) a (if xs = [] then None else Some (last xs))
                 (data c ! hash c (key (heap c a))) c = Inr c' \<and>
           cache_inv c' \<and> bucket c' (hash c (key (heap c a))) (a # xs @ ys) \<and>
           mtx c' = mtx c \<and> csize c' = csize c \<and> seed c' = seed c \<and> lru c' = lru c \<and>
           nxt c' = nxt c \<and> now c' = now c \<and> timers c' = timers c \<and>
           (\<forall>b. key (heap c' b) = key (heap c b) \<and> val (heap c' b) = val (heap c b) \<and>
                tmr (heap c' b) = tmr (heap c b))"
proof -
  let ?i = "hash c (key (heap c a))"
  from b have ch: "chain (heap c) (data c ! ?i) (xs @ a # ys)"
    and d: "distinct (xs @ a # ys)" and lv: "set (xs @ a # ys) = live c ?i"
    by (simp_all add: bucket_def)
  from inv have len: "length (data c) = MaxCacheSize" by (simp add: cache_inv_def)
  from bring_to_top_at [OF ch d] obtain c' where
    run: "bring_to_top ?i a (if xs = [] then None else Some (last xs)) (data c ! ?i) c = Inr c'"
    and ch': "?i < length (data c) \<longrightarrow> chain (heap c') (data c' ! ?i) (a # xs @ ys)"
    and f: "mtx c' = mtx c" "csize c' = csize c" "seed c' = seed c" "lru c' = lru c"
      "nxt c' = nxt c" "now c' = now c" "timers c' = timers c" "length (data c') = length (data c)"
    and dj: "\<forall>j. j \<noteq> ?i \<longrightarrow> data c' ! j = data c ! j"
    and kv: "\<forall>b. key (heap c' b) = key (heap c b) \<and> val (heap c' b) = val (heap c b) \<and>
                tmr (heap c' b) = tmr (heap c b)"
    and fr: "\<forall>b. b \<notin> set (xs @ [a]) \<longrightarrow> heap c' b = heap c b"
    by blast
  from ch' len hash_less [of c] have chi: "chain (heap c') (data c' ! ?i) (a # xs @ ys)" by simp
  have chj: "\<exists>as'. chain (heap c') (data c' ! j) as' \<and> distinct as' \<and> set as' = set as"
    if j: "j < MaxCacheSize" and as: "bucket c j as" for j as
  proof (cases "j = ?i")
    case True
    with as b have "as = xs @ a # ys" by (auto simp add: bucket_def dest: chain_unique)
    with chi d True show ?thesis by (intro exI [of _ "a # xs @ ys"]) auto
  next
    case False
    have "x \<notin> set as" if "x \<in> set (xs @ [a])" for x
    proof
      assume "x \<in> set as"
      with as have "x \<in> live c j" by (simp add: bucket_def)
      moreover from that lv have "x \<in> live c ?i" by auto
      ultimately show False using False by (auto dest: live_disjoint)
    qed
    with fr have "\<forall>x\<in>set as. below (heap c' x) = below (heap c x)" by metis
    then have "chain (heap c') (data c ! j) as = chain (heap c) (data c ! j) as"
      by (rule chain_frame)
    with as dj False show ?thesis by (intro exI [of _ as]) (simp add: bucket_def)
  qed
  have tm: "\<forall>b\<in>set (lru c). \<exists>tid<length (timers c'). tmr (heap c' b) = Some tid"
    using inv kv f(7) by (simp add: cache_inv_def)
  have inv': "cache_inv c'"
    using inv f(3) _ _ f(2) _ _ tm _ chj
    by (rule inv_same) (use inv kv f len in \<open>simp_all add: cache_inv_def\<close>)
  have "live c' ?i = live c ?i"
    using f(3) _ _ by (rule live_eq) (simp_all add: f kv)
  with chi d lv have "bucket c' ?i (a # xs @ ys)" by (auto simp add: bucket_def)
  with run inv' f kv show ?thesis by blast
qed

subsection \<open>Get\<close>

lemma touch_lru:
  assumes inv: "cache_inv c" and a: "a \<in> set (lru c)"
  shows "cache_inv (c\<lparr>lru := MoveToFront a (lru c)\<rparr>)"
    and "bucket c j as \<Longrightarrow> bucket (c\<lparr>lru := MoveToFront a (lru c)\<rparr>) j as"
    and "MoveToFront a (lru c) = a # remove1 a (lru c)"
proof -
  let ?c = "c\<lparr>lru := MoveToFront a (lru c)\<rparr>"
  show m: "MoveToFront a (lru c) = a # remove1 a (lru c)"
    using a by (simp add: MoveToFront_def)
  from inv have d: "distinct (lru c)" by (simp add: cache_inv_def)
  have s: "set (lru ?c) = set (lru c)" using a d by (auto simp add: m)
  show "bucket ?c j as" if "bucket c j as"
    using that _ s by (rule bucket_same) simp_all
  have chs: "\<exists>as'. chain (heap ?c) (data ?c ! j) as' \<and> distinct as' \<and> set as' = set as"
    if "bucket c j as" for j as
    using that by (intro exI [of _ as]) (simp add: bucket_def)
  show "cache_inv ?c"
    by (rule inv_same [OF inv, where c' = ?c])
       (use inv s d chs in \<open>auto simp add: m cache_inv_def\<close>)
qed

lemma Get_miss:
  assumes wf: "well_formed c" and nk: "\<forall>b\<in>set (lru c). key (heap c b) \<noteq> k"
  shows "Get zv k c = Inr ((zv, False), c)"
proof -
  let ?c0 = "c\<lparr>mtx := True\<rparr>"
  from wf have inv: "cache_inv c" and m: "\<not> mtx c" by (simp_all add: well_formed_def)
  from inv_bucket [OF inv hash_less] obtain as where as: "bucket c (hash c k) as" by blast
  with nk have "\<forall>a\<in>set as. key (heap c a) \<noteq> k" by (intro absent_bucket) auto
  with as have "lookup ?c0 (hash c k) k =
      Inr (None, if as = [] then None else Some (last as), data c ! hash c k)"
    using lookup_miss [of ?c0 "hash c k" as k] by (simp add: hash_less bucket_def)
  moreover have "c\<lparr>mtx := False\<rparr> = c" using m by simp
  ultimately show ?thesis using m by (simp add: Get_def)
qed

lemma Get_hit:
  assumes wf: "well_formed c" and a: "a \<in> set (lru c)"
    and b: "bucket c (hash c (key (heap c a))) (xs @ a # ys)"
  shows "\<exists>c'. Get zv (key (heap c a)) c = Inr ((val (heap c a), True), c') \<and>
           well_formed c' \<and> bucket c' (hash c (key (heap c a))) (a # xs @ ys) \<and>
           lru c' = a # remove1 a (lru c) \<and>
           csize c' = csize c \<and> seed c' = seed c \<and> nxt c' = nxt c \<and> now c' = now c \<and>
           timers c' = timers c \<and>
           (\<forall>b. key (heap c' b) = key (heap c b) \<and> val (heap c' b) = val (heap c b) \<and>
                tmr (heap c' b) = tmr (heap c b))"
proof -
  let ?k = "key (heap c a)"
  let ?i = "hash c ?k"
  let ?c0 = "c\<lparr>mtx := True\<rparr>"
  from wf have inv: "cache_inv c" and m: "\<not> mtx c" by (simp_all add: well_formed_def)
  from b have ch: "chain (heap c) (data c ! ?i) (xs @ a # ys)"
    and d: "distinct (xs @ a # ys)" and lv: "set (xs @ a # ys) = live c ?i"
    by (simp_all add: bucket_def)
  have nk: "\<forall>x\<in>set xs. key (heap c x) \<noteq> ?k"
  proof
    fix x assume x: "x \<in> set xs"
    with lv have "x \<in> live c ?i" by auto
    then have "x \<in> set (lru c)" by (simp add: live_def)
    moreover from x d have "x \<noteq> a" by auto
    ultimately show "key (heap c x) \<noteq> ?k"
      using inv a by (auto simp add: cache_inv_def inj_on_def)
  qed
  have lk: "lookup ?c0 ?i ?k = Inr (Some a, if xs = [] then None else Some (last xs), data c ! ?i)"
    using lookup_hit [of ?c0 ?i xs a ys ?k] ch nk by (simp add: hash_less)
  from bring_to_top_inv [of ?c0 a xs ys] inv a b obtain c1 where
    run: "bring_to_top ?i a (if xs = [] then None else Some (last xs)) (data c ! ?i) ?c0 = Inr c1"
    and inv1: "cache_inv c1" and b1: "bucket c1 ?i (a # xs @ ys)"
    and f: "mtx c1" "csize c1 = csize c" "seed c1 = seed c" "lru c1 = lru c"
      "nxt c1 = nxt c" "now c1 = now c" "timers c1 = timers c"
    and kv: "\<forall>b. key (heap c1 b) = key (heap c b) \<and> val (heap c1 b) = val (heap c b) \<and>
                tmr (heap c1 b) = tmr (heap c b)"
    by auto
  define c' where "c' = c1\<lparr>lru := MoveToFront a (lru c1), mtx := False\<rparr>"
  have a1: "a \<in> set (lru c1)" using a f by simp
  have g: "Get zv ?k c = Inr ((val (heap c a), True), c')"
    using m lk run kv by (simp add: Get_def Let_def c'_def)
  have "well_formed c'"
    using touch_lru(1) [OF inv1 a1] by (simp add: c'_def well_formed_def)
  moreover have "bucket c' ?i (a # xs @ ys)"
    using touch_lru(2) [OF inv1 a1 b1] by (simp add: c'_def)
  moreover have "lru c' = a # remove1 a (lru c)"
    using touch_lru(3) [OF inv1 a1] f by (simp add: c'_def)
  ultimately show ?thesis using g f kv by (intro exI [of _ c']) (simp add: c'_def)
qed

subsection \<open>Set\<close>

lemma set_new_eq:
  "set_new i k v ttl root c =
     c\<lparr>timers := timers c @ [\<lparr>due = now c + ttl, t_idx = i, t_key = k, status = Armed\<rparr>],
       heap := (heap c)(nxt c := \<lparr>key = k, val = v, below = root, tmr = Some (length (timers c))\<rparr>),
       nxt := Suc (nxt c), lru := nxt c # lru c, data := (data c)[i := Some (nxt c)],
       csize := csize c + 1\<rparr>"
  by (simp add: set_new_def AfterFunc_def PushFront_def Let_def)

lemma set_new_inv:
  assumes inv: "cache_inv c" and lt: "length (lru c) < MaxCacheSize"
    and nk: "\<forall>b\<in>set (lru c). key (heap c b) \<noteq> k"
  shows "cache_inv (set_new (hash c k) k v ttl (data c ! hash c k) c)"
    and "bucket c (hash c k) as \<Longrightarrow>
         bucket (set_new (hash c k) k v ttl (data c ! hash c k) c) (hash c k) (nxt c # as)"
proof -
  let ?i = "hash c k"
  let ?n = "nxt c"
  let ?c = "set_new ?i k v ttl (data c ! ?i) c"
  have i: "?i < MaxCacheSize" by (rule hash_less)
  from inv have len: "length (data c) = MaxCacheSize" and d: "distinct (lru c)"
    and fresh: "\<forall>a\<in>set (lru c). a < ?n" by (auto simp add: cache_inv_def)
  then have n: "?n \<notin> set (lru c)" by auto
  have f: "seed ?c = seed c" "lru ?c = ?n # lru c" "nxt ?c = Suc ?n"
    "data ?c = (data c)[?i := Some ?n]" "csize ?c = csize c + 1"
    "length (timers ?c) = Suc (length (timers c))"
    by (simp_all add: set_new_eq)
  have hn: "heap ?c ?n = \<lparr>key = k, val = v, below = data c ! ?i, tmr = Some (length (timers c))\<rparr>"
    by (simp add: set_new_eq)
  have ho: "b \<noteq> ?n \<Longrightarrow> heap ?c b = heap c b" for b
    by (simp add: set_new_eq)
  have hl: "b \<in> set (lru c) \<Longrightarrow> heap ?c b = heap c b" for b
    using n ho by metis
  have hs: "hash ?c = hash c" using f(1) by (rule hash_seed)
  have lv: "live ?c j = (if j = ?i then insert ?n (live c j) else live c j)" for j
    using n by (auto simp add: live_def f hs hn hl)
  have fr: "chain (heap ?c) p as = chain (heap c) p as" if "set as \<subseteq> set (lru c)" for p as
    using that by (intro chain_frame) (auto simp add: hl)
  have bi: "bucket ?c ?i (?n # as)" if as: "bucket c ?i as" for as
  proof -
    from as have sub: "set as \<subseteq> set (lru c)" by (auto simp add: bucket_def live_def)
    with as n show ?thesis
      using fr [OF sub, of "data c ! ?i"] i len
      by (auto simp add: bucket_def lv f hn)
  qed
  then show "bucket c ?i as \<Longrightarrow> bucket ?c ?i (?n # as)" .
  have bj: "\<exists>as. bucket ?c j as" if j: "j < MaxCacheSize" for j
  proof -
    from inv_bucket [OF inv j] obtain as where as: "bucket c j as" by blast
    show ?thesis
    proof (cases "j = ?i")
      case True
      with as bi show ?thesis by blast
    next
      case False
      from as have sub: "set as \<subseteq> set (lru c)" by (auto simp add: bucket_def live_def)
      with as False show ?thesis
        using fr [OF sub, of "data c ! j"]
        by (intro exI [of _ as]) (simp add: bucket_def lv f)
    qed
  qed
  have inj: "inj_on (\<lambda>a. key (heap ?c a)) (set (lru ?c))"
    using inv nk n by (auto simp add: f hn hl inj_on_def cache_inv_def)
  have u: "unat (csize ?c) = length (lru ?c)"
    using inv lt by (simp add: f unat_inc cache_inv_def)
  have t: "\<forall>a\<in>set (lru ?c). a < nxt ?c \<and> (\<exists>tid<length (timers ?c). tmr (heap ?c a) = Some tid)"
  proof
    fix a assume "a \<in> set (lru ?c)"
    then consider "a = ?n" | "a \<in> set (lru c)" "a \<noteq> ?n" using n by (auto simp add: f)
    then show "a < nxt ?c \<and> (\<exists>tid<length (timers ?c). tmr (heap ?c a) = Some tid)"
    proof cases
      case 1
      then show ?thesis by (simp add: f hn)
    next
      case 2
      with inv obtain tid where "tid < length (timers c)" "tmr (heap c a) = Some tid" "a < ?n"
        by (auto simp add: cache_inv_def)
      with 2 show ?thesis by (auto simp add: f hl)
    qed
  qed
  show "cache_inv ?c"
    unfolding cache_inv_def using bj inj u t lt n d len by (simp add: f)
qed

lemma set_reset_inv:
  assumes inv: "cache_inv c" and a: "a \<in> set (lru c)"
    and b: "bucket c (hash c (key (heap c a))) (xs @ a # ys)"
  shows "\<exists>c' old. tmr (heap c a) = Some old \<and>
           set_reset (hash c (key (heap c a))) k v ttl a (if xs = [] then None else Some (last xs))
              (data c ! hash c (key (heap c a))) c = Inr c' \<and>
           cache_inv c' \<and> bucket c' (hash c (key (heap c a))) (a # xs @ ys) \<and>
           lru c' = a # remove1 a (lru c) \<and> mtx c' = mtx c \<and>
           csize c' = csize c \<and> seed c' = seed c \<and> nxt c' = nxt c \<and> now c' = now c \<and>
           timers c' = timers (Stop old c) @
              [\<lparr>due = now c + ttl, t_idx = hash c (key (heap c a)), t_key = k, status = Armed\<rparr>] \<and>
           tmr (heap c' a) = Some (length (timers c)) \<and>
           (\<forall>b. key (heap c' b) = key (heap c b) \<and>
                val (heap c' b) = (if b = a then v else val (heap c b)))"
proof -
  let ?i = "hash c (key (heap c a))"
  let ?abv = "if xs = [] then None else Some (last xs)"
  from inv a obtain old where old: "tmr (heap c a) = Some old" "old < length (timers c)"
    by (auto simp add: cache_inv_def)
  let ?T = "\<lparr>due = now c + ttl, t_idx = ?i, t_key = k, status = Armed\<rparr>"
  define c4 where "c4 = (Stop old c)
     \<lparr>timers := timers (Stop old c) @ [?T],
      heap := (heap c)(a := (heap c a)\<lparr>val := v, tmr := Some (length (timers c))\<rparr>)\<rparr>"
  have f4: "seed c4 = seed c" "lru c4 = lru c" "csize c4 = csize c" "nxt c4 = nxt c"
    "data c4 = data c" "mtx c4 = mtx c" "now c4 = now c"
    "length (timers c4) = Suc (length (timers c))"
    "timers c4 = timers (Stop old c) @ [?T]"
    by (simp_all add: c4_def Stop_fields)
  have h4: "heap c4 = (heap c)(a := (heap c a)\<lparr>val := v, tmr := Some (length (timers c))\<rparr>)"
    by (simp add: c4_def)
  have kb: "key (heap c4 x) = key (heap c x)" "below (heap c4 x) = below (heap c x)" for x
    by (simp_all add: h4)
  have run4: "set_reset ?i k v ttl a ?abv (data c ! ?i) c =
     (case bring_to_top ?i a ?abv (data c ! ?i) c4 of
        Inl e \<Rightarrow> Inl e
      | Inr c5 \<Rightarrow> Inr (c5\<lparr>lru := MoveToFront a (lru c5)\<rparr>))"
    using old(1) by (simp add: set_reset_def Let_def AfterFunc_def Stop_fields c4_def)
  have tm: "\<forall>x\<in>set (lru c). \<exists>tid<length (timers c4). tmr (heap c4 x) = Some tid"
  proof
    fix x assume "x \<in> set (lru c)"
    with inv obtain tid where "tid < length (timers c)" "tmr (heap c x) = Some tid"
      by (auto simp add: cache_inv_def)
    then show "\<exists>tid<length (timers c4). tmr (heap c4 x) = Some tid"
      by (cases "x = a") (auto simp add: h4 f4 Stop_fields)
  qed
  have chs: "\<exists>as'. chain (heap c4) (data c4 ! j) as' \<and> distinct as' \<and> set as' = set as"
    if "bucket c j as" for j as
    using that chain_frame [of as "heap c4" "heap c" "data c ! j"]
    by (intro exI [of _ as]) (simp add: bucket_def kb f4)
  have inv4: "cache_inv c4"
    by (rule inv_same [OF inv, where c' = c4])
       (use inv tm chs in \<open>auto simp add: f4 kb cache_inv_def Stop_fields\<close>)
  have b4: "bucket c4 ?i (xs @ a # ys)"
    using b by (rule bucket_same) (simp_all add: f4 kb)
  have i4: "hash c4 (key (heap c4 a)) = ?i"
    using hash_seed [OF f4(1)] by (simp add: kb)
  from bring_to_top_inv [of c4 a xs ys] inv4 a b4 i4 obtain c5 where
    run5: "bring_to_top ?i a ?abv (data c ! ?i) c4 = Inr c5"
    and inv5: "cache_inv c5" and b5: "bucket c5 ?i (a # xs @ ys)"
    and f5: "mtx c5 = mtx c" "csize c5 = csize c" "seed c5 = seed c" "lru c5 = lru c"
      "nxt c5 = nxt c" "now c5 = now c" "timers c5 = timers c4"
    and kv5: "\<forall>b. key (heap c5 b) = key (heap c4 b) \<and> val (heap c5 b) = val (heap c4 b) \<and>
                tmr (heap c5 b) = tmr (heap c4 b)"
    by (auto simp add: f4)
  define c' where "c' = c5\<lparr>lru := MoveToFront a (lru c5)\<rparr>"
  have a5: "a \<in> set (lru c5)" using a f5 by simp
  have run: "set_reset ?i k v ttl a ?abv (data c ! ?i) c = Inr c'"
    using run4 run5 by (simp add: c'_def)
  have "cache_inv c'" using touch_lru(1) [OF inv5 a5] by (simp add: c'_def)
  moreover have "bucket c' ?i (a # xs @ ys)" using touch_lru(2) [OF inv5 a5 b5] by (simp add: c'_def)
  moreover have "lru c' = a # remove1 a (lru c)"
    using touch_lru(3) [OF inv5 a5] f5 by (simp add: c'_def)
  moreover have "\<forall>b. key (heap c' b) = key (heap c b) \<and>
                val (heap c' b) = (if b = a then v else val (heap c b))"
    using kv5 by (simp add: c'_def h4)
  moreover have "tmr (heap c' a) = Some (length (timers c))"
    using kv5 by (simp add: c'_def h4)
  ultimately show ?thesis
    using run old(1) f5 f4(9) by (intro exI [of _ c'] exI [of _ old]) (simp add: c'_def)
qed

lemma unlock_id: "\<not> mtx c \<Longrightarrow> c\<lparr>mtx := False\<rparr> = c"
  by simp

lemma set_new_mtx: "(set_new i k v ttl r (c\<lparr>mtx := True\<rparr>))\<lparr>mtx := False\<rparr> = set_new i k v ttl r (c\<lparr>mtx := False\<rparr>)"
  by (simp add: set_new_eq)

lemma Set_refresh:
  assumes wf: "well_formed c" and a: "a \<in> set (lru c)"
    and b: "bucket c (hash c (key (heap c a))) (xs @ a # ys)"
  shows "\<exists>c' old. tmr (heap c a) = Some old \<and>
           Set (key (heap c a)) v ttl c = Inr c' \<and>
           well_formed c' \<and> bucket c' (hash c (key (heap c a))) (a # xs @ ys) \<and>
           lru c' = a # remove1 a (lru c) \<and>
           csize c' = csize c \<and> seed c' = seed c \<and> nxt c' = nxt c \<and> now c' = now c \<and>
           timers c' = timers (Stop old c) @
              [\<lparr>due = now c + ttl, t_idx = hash c (key (heap c a)), t_key = key (heap c a),
                status = Armed\<rparr>] \<and>
           tmr (heap c' a) = Some (length (timers c)) \<and>
           (\<forall>b. key (heap c' b) = key (heap c b) \<and>
                val (heap c' b) = (if b = a then v else val (heap c b)))"
proof -
  let ?k = "key (heap c a)"
  let ?i = "hash c ?k"
  let ?c0 = "c\<lparr>mtx := True\<rparr>"
  from wf have inv: "cache_inv c" and m: "\<not> mtx c" by (simp_all add: well_formed_def)
  from b have ch: "chain (heap c) (data c ! ?i) (xs @ a # ys)"
    and d: "distinct (xs @ a # ys)" and lv: "set (xs @ a # ys) = live c ?i"
    by (simp_all add: bucket_def)
  have nk: "\<forall>x\<in>set xs. key (heap c x) \<noteq> ?k"
  proof
    fix x assume x: "x \<in> set xs"
    with lv have "x \<in> live c ?i" by auto
    then have "x \<in> set (lru c)" by (simp add: live_def)
    moreover from x d have "x \<noteq> a" by auto
    ultimately show "key (heap c x) \<noteq> ?k"
      using inv a by (auto simp add: cache_inv_def inj_on_def)
  qed
  have lk: "lookup ?c0 ?i ?k = Inr (Some a, if xs = [] then None else Some (last xs), data c ! ?i)"
    using lookup_hit [of ?c0 ?i xs a ys ?k] ch nk by (simp add: hash_less)
  from set_reset_inv [of ?c0 a xs ys ?k v ttl] inv a b obtain c1 old where
    old: "tmr (heap c a) = Some old"
    and run: "set_reset ?i ?k v ttl a (if xs = [] then None else Some (last xs)) (data c ! ?i) ?c0
               = Inr c1"
    and inv1: "cache_inv c1" and b1: "bucket c1 ?i (a # xs @ ys)"
    and f: "lru c1 = a # remove1 a (lru c)" "csize c1 = csize c" "seed c1 = seed c"
      "nxt c1 = nxt c" "now c1 = now c"
      "timers c1 = timers (Stop old ?c0) @ [\<lparr>due = now c + ttl, t_idx = ?i, t_key = ?k, status = Armed\<rparr>]"
      "tmr (heap c1 a) = Some (length (timers c))"
    and kv: "\<forall>b. key (heap c1 b) = key (heap c b) \<and>
                val (heap c1 b) = (if b = a then v else val (heap c b))"
    by auto
  have st: "timers (Stop old ?c0) = timers (Stop old c)" by (simp add: Stop_def)
  define c' where "c' = c1\<lparr>mtx := False\<rparr>"
  have g: "Set ?k v ttl c = Inr c'"
    using m lk run by (simp add: Set_def Let_def c'_def)
  have "well_formed c'" using inv1 by (simp add: c'_def well_formed_def)
  moreover have "bucket c' ?i (a # xs @ ys)" using b1 by (simp add: c'_def)
  ultimately show ?thesis
    using g old f kv st by (intro exI [of _ c'] exI [of _ old]) (simp add: c'_def)
qed

lemma Set_insert:
  assumes wf: "well_formed c" and nk: "\<forall>b\<in>set (lru c). key (heap c b) \<noteq> k"
    and lt: "length (lru c) < MaxCacheSize"
  shows "Set k v ttl c = Inr (set_new (hash c k) k v ttl (data c ! hash c k) c)"
    and "well_formed (set_new (hash c k) k v ttl (data c ! hash c k) c)"
proof -
  let ?c0 = "c\<lparr>mtx := True\<rparr>"
  from wf have inv: "cache_inv c" and m: "\<not> mtx c" by (simp_all add: well_formed_def)
  from inv_bucket [OF inv hash_less] obtain as where as: "bucket c (hash c k) as" by blast
  with nk have "\<forall>a\<in>set as. key (heap c a) \<noteq> k" by (intro absent_bucket) auto
  with as have lk: "lookup ?c0 (hash c k) k =
      Inr (None, if as = [] then None else Some (last as), data c ! hash c k)"
    using lookup_miss [of ?c0 "hash c k" as k] by (simp add: hash_less bucket_def)
  have nf: "csize c \<noteq> word_of_nat MaxCacheSize"
    using inv lt by (simp add: csize_full cache_inv_def)
  show "Set k v ttl c = Inr (set_new (hash c k) k v ttl (data c ! hash c k) c)"
    using m lk nf by (simp add: Set_def Let_def set_new_mtx unlock_id)
  show "well_formed (set_new (hash c k) k v ttl (data c ! hash c k) c)"
    using set_new_inv(1) [OF inv lt nk] m by (simp add: well_formed_def set_new_eq)
qed

lemma Set_evict:
  assumes wf: "well_formed c" and nk: "\<forall>b\<in>set (lru c). key (heap c b) \<noteq> k"
    and full: "length (lru c) = MaxCacheSize"
  shows "\<exists>c'. Set k v ttl c = Inr c' \<and> well_formed c' \<and>
           lru c' = nxt c # remove1 (last (lru c)) (lru c) \<and>
           csize c' = csize c \<and> seed c' = seed c \<and> nxt c' = Suc (nxt c) \<and> now c' = now c \<and>
           (\<exists>tid. timers c' = timers (Stop tid c) @
              [\<lparr>due = now c + ttl, t_idx = hash c k, t_key = k, status = Armed\<rparr>]) \<and>
           key (heap c' (nxt c)) = k \<and> val (heap c' (nxt c)) = v \<and>
           (\<forall>b. b \<noteq> nxt c \<longrightarrow> key (heap c' b) = key (heap c b) \<and>
                               val (heap c' b) = val (heap c b))"
proof -
  let ?i = "hash c k"
  let ?c0 = "c\<lparr>mtx := True\<rparr>"
  let ?er = "last (lru c)"
  from wf have inv: "cache_inv c" and m: "\<not> mtx c" by (simp_all add: well_formed_def)
  from full have ne: "lru c \<noteq> []" by (auto simp add: MaxCacheSize_def)
  then have er: "?er \<in> set (lru c)" by simp
  from inv_bucket [OF inv hash_less] obtain as where as: "bucket c ?i as" by blast
  with nk have "\<forall>a\<in>set as. key (heap c a) \<noteq> k" by (intro absent_bucket) auto
  with as have lk: "lookup ?c0 ?i k =
      Inr (None, if as = [] then None else Some (last as), data c ! ?i)"
    using lookup_miss [of ?c0 ?i as k] by (simp add: hash_less bucket_def)
  have fl: "csize c = word_of_nat MaxCacheSize"
    using inv full by (simp add: csize_full cache_inv_def)
  have "\<exists>c1. delete ?c0 (hash c (key (heap c ?er))) (key (heap c ?er)) = Inr c1 \<and>
           cache_inv c1 \<and> mtx c1 \<and> lru c1 = remove1 ?er (lru c) \<and>
           csize c1 = csize c - 1 \<and> seed c1 = seed c \<and> nxt c1 = nxt c \<and> now c1 = now c \<and>
           (\<exists>tid. timers c1 = timers (Stop tid ?c0)) \<and>
           (\<forall>b. key (heap c1 b) = key (heap c b) \<and> val (heap c1 b) = val (heap c b)) \<and>
           (\<forall>j<MaxCacheSize. data c1 ! j =
               (if data c ! j = Some ?er then below (heap c ?er) else data c ! j))"
    using delete_present [of ?c0 ?er] inv er by (simp cong: if_cong)
  then obtain c1 where
    del: "delete ?c0 (hash c (key (heap c ?er))) (key (heap c ?er)) = Inr c1"
    and inv1: "cache_inv c1" and m1: "mtx c1"
    and f1: "lru c1 = remove1 ?er (lru c)" "csize c1 = csize c - 1" "seed c1 = seed c"
      "nxt c1 = nxt c" "now c1 = now c"
    and t1: "\<exists>tid. timers c1 = timers (Stop tid ?c0)"
    and kv1: "\<forall>b. key (heap c1 b) = key (heap c b) \<and> val (heap c1 b) = val (heap c b)"
    and d1: "\<forall>j<MaxCacheSize. data c1 ! j =
               (if data c ! j = Some ?er then below (heap c ?er) else data c ! j)"
    by blast
  let ?root' = "if Some ?er = data c ! ?i then below (heap c ?er) else data c ! ?i"
  have r1: "?root' = data c1 ! ?i"
    using d1 hash_less [of c k] by auto
  have h1: "hash c1 = hash c" using f1(3) by (rule hash_seed)
  define c2 where "c2 = set_new ?i k v ttl (data c1 ! ?i) c1"
  have "set_evict ?i k v ttl (data c ! ?i) ?c0 = Inr (set_new ?i k v ttl ?root' c1)"
    using ne del by (simp add: set_evict_def Back_def Let_def)
  then have ev: "set_evict ?i k v ttl (data c ! ?i) ?c0 = Inr c2"
    unfolding r1 c2_def .
  have g: "Set k v ttl c = Inr (c2\<lparr>mtx := False\<rparr>)"
    using m lk fl ev by (simp add: Set_def Let_def)
  have lt1: "length (lru c1) < MaxCacheSize"
    using er full ne by (simp add: f1 length_remove1 MaxCacheSize_def)
  have nk1: "\<forall>b\<in>set (lru c1). key (heap c1 b) \<noteq> k"
    using nk kv1 by (auto simp add: f1 dest: notin_set_remove1)
  have inv2: "cache_inv c2"
    using set_new_inv(1) [OF inv1 lt1 nk1, of v ttl] by (simp add: c2_def h1)
  have sz: "csize c2 = csize c" by (simp add: c2_def set_new_eq f1)
  have "well_formed (c2\<lparr>mtx := False\<rparr>)" using inv2 by (simp add: well_formed_def)
  moreover have "lru c2 = nxt c # remove1 ?er (lru c)" by (simp add: c2_def set_new_eq f1)
  moreover have "key (heap c2 (nxt c)) = k \<and> val (heap c2 (nxt c)) = v"
    by (simp add: c2_def set_new_eq f1)
  moreover have "\<forall>b. b \<noteq> nxt c \<longrightarrow> key (heap c2 b) = key (heap c b) \<and>
                               val (heap c2 b) = val (heap c b)"
    using kv1 by (simp add: c2_def set_new_eq f1)
  moreover have "seed c2 = seed c" "nxt c2 = Suc (nxt c)" "now c2 = now c"
    by (simp_all add: c2_def set_new_eq f1)
  moreover have "\<exists>tid. timers c2 = timers (Stop tid c) @
              [\<lparr>due = now c + ttl, t_idx = hash c k, t_key = k, status = Armed\<rparr>]"
  proof -
    from t1 obtain tid where "timers c1 = timers (Stop tid ?c0)" by blast
    moreover have "timers (Stop tid ?c0) = timers (Stop tid c)" by (simp add: Stop_def)
    ultimately show ?thesis by (intro exI [of _ tid]) (simp add: c2_def set_new_eq f1)
  qed
  ultimately show ?thesis using g sz by (intro exI [of _ "c2\<lparr>mtx := False\<rparr>"]) simp
qed

section \<open>The cache as a list of entries\<close>

lemma wf_NewCache: "well_formed (NewCache zv sd)"
proof -
  have "bucket (NewCache zv sd) i []" if "i < MaxCacheSize" for i
    using that by (simp add: bucket_def live_def NewCache_def)
  then have "\<forall>i<MaxCacheSize. \<exists>as. bucket (NewCache zv sd) i as" by blast
  then show ?thesis
    by (simp add: well_formed_def cache_inv_def) (simp add: NewCache_def)
qed

lemma remove1_last: "distinct l \<Longrightarrow> l \<noteq> [] \<Longrightarrow> remove1 (last l) l = butlast l"
  by (induction l) auto

lemma entries_keys: "fst ` set (entries c) = (\<lambda>a. key (heap c a)) ` set (lru c)"
  by (force simp add: entries_def)

lemma absent_iff: "k \<notin> fst ` set (entries c) \<longleftrightarrow> (\<forall>b\<in>set (lru c). key (heap c b) \<noteq> k)"
  by (auto simp add: entries_keys)

lemma distinct_keys: "cache_inv c \<Longrightarrow> distinct (map fst (entries c))"
  by (simp add: entries_def cache_inv_def distinct_map comp_def)

lemma length_entries: "length (entries c) = length (lru c)"
  by (simp add: entries_def)

lemma entries_remove:
  assumes inv: "cache_inv c" and a: "a \<in> set (lru c)"
  shows "map (\<lambda>b. (key (heap c b), val (heap c b))) (remove1 a (lru c)) =
         filter (\<lambda>p. fst p \<noteq> key (heap c a)) (entries c)"
proof -
  from inv have d: "distinct (lru c)" and inj: "inj_on (\<lambda>a. key (heap c a)) (set (lru c))"
    by (simp_all add: cache_inv_def)
  have "remove1 a (lru c) = filter (\<lambda>b. b \<noteq> a) (lru c)"
    using d by (simp add: distinct_remove1_removeAll removeAll_filter_not_eq) metis
  moreover have "filter (\<lambda>b. b \<noteq> a) (lru c) = filter (\<lambda>b. key (heap c b) \<noteq> key (heap c a)) (lru c)"
    using inj a by (intro filter_cong) (auto simp add: inj_on_def)
  ultimately show ?thesis by (simp add: entries_def filter_map comp_def)
qed

lemma map_of_entries:
  assumes inv: "cache_inv c" and a: "a \<in> set (lru c)"
  shows "map_of (entries c) (key (heap c a)) = Some (val (heap c a))"
proof -
  have "(key (heap c a), val (heap c a)) \<in> set (entries c)"
    using a by (auto simp add: entries_def)
  with distinct_keys [OF inv] show ?thesis by simp
qed

lemma entries_touch:
  assumes inv: "cache_inv c" and a: "a \<in> set (lru c)"
    and l: "lru c' = a # remove1 a (lru c)"
    and kv: "\<forall>b. key (heap c' b) = key (heap c b) \<and>
                val (heap c' b) = (if b = a then v else val (heap c b))"
  shows "entries c' = (key (heap c a), v) # filter (\<lambda>p. fst p \<noteq> key (heap c a)) (entries c)"
proof -
  from inv have d: "distinct (lru c)" by (simp add: cache_inv_def)
  then have "a \<notin> set (remove1 a (lru c))" by simp
  then have "map (\<lambda>b. (key (heap c' b), val (heap c' b))) (remove1 a (lru c)) =
        map (\<lambda>b. (key (heap c b), val (heap c b))) (remove1 a (lru c))"
    using kv by (intro map_cong) auto
  with entries_remove [OF inv a] kv show ?thesis by (simp add: entries_def l)
qed

text \<open>What \<^verbatim>\<open>Get\<close> answers and what it leaves, read on the entries.\<close>

lemma Get_entries:
  assumes wf: "well_formed c"
  shows "\<exists>c'. Get zv k c =
            Inr ((case map_of (entries c) k of None \<Rightarrow> (zv, False) | Some v \<Rightarrow> (v, True)), c') \<and>
           well_formed c' \<and> csize c' = csize c \<and> seed c' = seed c \<and>
           entries c' = (case map_of (entries c) k of None \<Rightarrow> entries c
                         | Some v \<Rightarrow> (k, v) # filter (\<lambda>p. fst p \<noteq> k) (entries c))"
proof (cases "k \<in> fst ` set (entries c)")
  case False
  then have "map_of (entries c) k = None" by (simp add: map_of_eq_None_iff)
  moreover from False have "Get zv k c = Inr ((zv, False), c)"
    using Get_miss [OF wf] by (simp add: absent_iff)
  ultimately show ?thesis using wf by simp
next
  case True
  then obtain a where a: "a \<in> set (lru c)" and k: "key (heap c a) = k"
    by (auto simp add: entries_keys)
  from wf have inv: "cache_inv c" by (simp add: well_formed_def)
  from find_record [OF inv a] obtain xs ys where
    b: "bucket c (hash c (key (heap c a))) (xs @ a # ys)" by blast
  from Get_hit [OF wf a b, of zv] obtain c' where
    g: "Get zv (key (heap c a)) c = Inr ((val (heap c a), True), c')"
    and wf': "well_formed c'" and l: "lru c' = a # remove1 a (lru c)"
    and f: "csize c' = csize c" "seed c' = seed c"
    and kv: "\<forall>b. key (heap c' b) = key (heap c b) \<and> val (heap c' b) = val (heap c b)"
    by blast
  from kv have "\<forall>b. key (heap c' b) = key (heap c b) \<and>
                val (heap c' b) = (if b = a then val (heap c a) else val (heap c b))" by simp
  from entries_touch [OF inv a l this] map_of_entries [OF inv a] g wf' f k
  show ?thesis by auto
qed

text \<open>The same for \<^verbatim>\<open>Set\<close>, in its three cases.\<close>

lemma Set_entries:
  assumes wf: "well_formed c"
  shows "\<exists>c'. Set k v ttl c = Inr c' \<and> well_formed c' \<and> seed c' = seed c \<and>
           entries c' = (k, v) #
             (if k \<in> fst ` set (entries c) then filter (\<lambda>p. fst p \<noteq> k) (entries c)
              else if length (entries c) = MaxCacheSize then butlast (entries c)
              else entries c) \<and>
           csize c' =
             (if k \<in> fst ` set (entries c) then csize c
              else if csize c = word_of_nat MaxCacheSize then word_of_nat MaxCacheSize
              else csize c + 1)"
proof -
  from wf have inv: "cache_inv c" by (simp add: well_formed_def)
  from inv have le: "length (lru c) \<le> MaxCacheSize" and d: "distinct (lru c)"
    by (simp_all add: cache_inv_def)
  have cf: "csize c = word_of_nat MaxCacheSize \<longleftrightarrow> length (lru c) = MaxCacheSize"
    using inv by (simp add: csize_full cache_inv_def)
  consider (refresh) "k \<in> fst ` set (entries c)"
    | (evict) "k \<notin> fst ` set (entries c)" "length (lru c) = MaxCacheSize"
    | (insert) "k \<notin> fst ` set (entries c)" "length (lru c) < MaxCacheSize"
    using le by fastforce
  then show ?thesis
  proof cases
    case refresh
    then obtain a where a: "a \<in> set (lru c)" and k: "key (heap c a) = k"
      by (auto simp add: entries_keys)
    from find_record [OF inv a] obtain xs ys where
      b: "bucket c (hash c (key (heap c a))) (xs @ a # ys)" by blast
    from Set_refresh [OF wf a b, of v ttl] obtain c' where
      g: "Set (key (heap c a)) v ttl c = Inr c'"
      and wf': "well_formed c'" and l: "lru c' = a # remove1 a (lru c)"
      and f: "csize c' = csize c" "seed c' = seed c"
      and kv: "\<forall>b. key (heap c' b) = key (heap c b) \<and>
                val (heap c' b) = (if b = a then v else val (heap c b))"
      by blast
    from entries_touch [OF inv a l kv] g wf' f k refresh show ?thesis by auto
  next
    case evict
    then have nk: "\<forall>b\<in>set (lru c). key (heap c b) \<noteq> k" by (simp add: absent_iff)
    from evict have ne: "lru c \<noteq> []" by (auto simp add: MaxCacheSize_def)
    from Set_evict [OF wf nk evict(2), of v ttl] obtain c' where
      g: "Set k v ttl c = Inr c'" and wf': "well_formed c'"
      and l: "lru c' = nxt c # remove1 (last (lru c)) (lru c)"
      and f: "csize c' = csize c" "seed c' = seed c"
      and kn: "key (heap c' (nxt c)) = k" "val (heap c' (nxt c)) = v"
      and kv: "\<forall>b. b \<noteq> nxt c \<longrightarrow> key (heap c' b) = key (heap c b) \<and>
                               val (heap c' b) = val (heap c b)"
      by blast
    have rb: "remove1 (last (lru c)) (lru c) = butlast (lru c)"
      using d ne by (rule remove1_last)
    have fresh: "\<forall>a\<in>set (lru c). a \<noteq> nxt c"
      using inv by (auto simp add: cache_inv_def)
    have "map (\<lambda>b. (key (heap c' b), val (heap c' b))) (butlast (lru c)) =
          map (\<lambda>b. (key (heap c b), val (heap c b))) (butlast (lru c))"
      using kv fresh by (intro map_cong) (auto dest: in_set_butlastD)
    then have "entries c' = (k, v) # butlast (entries c)"
      by (simp add: entries_def l rb kn map_butlast)
    with g wf' f evict cf show ?thesis by (simp add: length_entries)
  next
    case insert
    then have nk: "\<forall>b\<in>set (lru c). key (heap c b) \<noteq> k" by (simp add: absent_iff)
    let ?c = "set_new (hash c k) k v ttl (data c ! hash c k) c"
    have fresh: "\<forall>a\<in>set (lru c). a \<noteq> nxt c"
      using inv by (auto simp add: cache_inv_def)
    have "map (\<lambda>b. (key (heap ?c b), val (heap ?c b))) (lru c) =
          map (\<lambda>b. (key (heap c b), val (heap c b))) (lru c)"
      using fresh by (intro map_cong) (auto simp add: set_new_eq)
    then have "entries ?c = (k, v) # entries c"
      by (simp add: entries_def) (simp add: set_new_eq)
    moreover have "csize ?c = csize c + 1" "seed ?c = seed c" by (simp_all add: set_new_eq)
    ultimately show ?thesis
      using Set_insert [OF wf nk insert(2), of v ttl] insert cf
      by (simp add: length_entries)
  qed
qed

section \<open>Every run keeps the invariant\<close>

lemma status_update_fields:
  assumes "t \<in> set (ts[i := (ts ! i)\<lparr>status := s\<rparr>])"
  shows "\<exists>u\<in>set ts. t_idx t = t_idx u \<and> t_key t = t_key u"
proof (cases "i < length ts")
  case True
  from assms have "t = (ts ! i)\<lparr>status := s\<rparr> \<or> t \<in> set ts"
    using set_update_subset_insert [of ts i] by blast
  then show ?thesis
  proof
    assume "t = (ts ! i)\<lparr>status := s\<rparr>"
    then have "t_idx t = t_idx (ts ! i) \<and> t_key t = t_key (ts ! i)" by simp
    with nth_mem [OF True] show ?thesis by blast
  next
    assume "t \<in> set ts"
    then show ?thesis by blast
  qed
next
  case False
  with assms have "t \<in> set ts" by (simp add: list_update_beyond)
  then show ?thesis by blast
qed


lemma timers_ok_status:
  assumes "timers_ok c" "seed c' = seed c" "timers c' = (timers c)[i := (timers c ! i)\<lparr>status := s\<rparr>]"
  shows "timers_ok c'"
  unfolding timers_ok_def
proof
  fix t assume "t \<in> set (timers c')"
  with assms(3) have "t \<in> set ((timers c)[i := (timers c ! i)\<lparr>status := s\<rparr>])" by simp
  then obtain u where u: "u \<in> set (timers c)" "t_idx t = t_idx u" "t_key t = t_key u"
    by (blast dest: status_update_fields)
  from assms(1) u(1) have "t_idx u = hash c (t_key u)" by (simp add: timers_ok_def)
  with u show "t_idx t = hash c' (t_key t)"
    by (simp add: hash_seed [OF assms(2)])
qed

lemma timers_ok_Stop:
  assumes "timers_ok c" "seed c' = seed c" "timers c' = timers (Stop tid c)"
  shows "timers_ok c'"
proof (cases "tid < length (timers c) \<and> status (timers c ! tid) = Armed")
  case True
  with assms(3) have "timers c' = (timers c)[tid := (timers c ! tid)\<lparr>status := Stopped\<rparr>]"
    by (simp add: Stop_def)
  with assms(1,2) show ?thesis by (rule timers_ok_status)
next
  case False
  then have "Stop tid c = c" unfolding Stop_def by (rule if_not_P)
  with assms(3) have "timers c' = timers c" by simp
  with assms(1) show ?thesis by (simp add: timers_ok_def hash_seed [OF assms(2)])
qed

lemma timers_ok_new:
  assumes "timers_ok c" "seed c' = seed c"
    and "timers c' = timers (Stop tid c) @ [\<lparr>due = d, t_idx = hash c k, t_key = k, status = Armed\<rparr>]"
  shows "timers_ok c'"
proof -
  have "timers_ok (Stop tid c)"
    using assms(1) by (rule timers_ok_Stop) (simp_all add: Stop_fields)
  then have "\<forall>t\<in>set (timers (Stop tid c)). t_idx t = hash c (t_key t)"
    by (simp add: timers_ok_def hash_seed [of "Stop tid c" c] Stop_fields)
  then show ?thesis
    by (simp add: timers_ok_def assms(3) hash_seed [OF assms(2)])
qed


lemma deleteWithLock_wf:
  assumes wf: "well_formed c" and i: "i < MaxCacheSize"
  shows "\<exists>c'. deleteWithLock c i k = Inr c' \<and> well_formed c' \<and> seed c' = seed c \<and>
           now c' = now c \<and>
           (c' = c \<or> (\<exists>tid. timers c' = timers (Stop tid c))) \<and>
           entries c' = (if i = hash c k then filter (\<lambda>p. fst p \<noteq> k) (entries c) else entries c)"
proof -
  let ?c0 = "c\<lparr>mtx := True\<rparr>"
  from wf have inv: "cache_inv c" and m: "\<not> mtx c" by (simp_all add: well_formed_def)
  show ?thesis
  proof (cases "i = hash c k \<and> k \<in> fst ` set (entries c)")
    case True
    then obtain a where a: "a \<in> set (lru c)" and k: "key (heap c a) = k"
      by (auto simp add: entries_keys)
    have "\<exists>c1. delete ?c0 (hash c (key (heap c a))) (key (heap c a)) = Inr c1 \<and>
           cache_inv c1 \<and> mtx c1 \<and> lru c1 = remove1 a (lru c) \<and>
           csize c1 = csize c - 1 \<and> seed c1 = seed c \<and> nxt c1 = nxt c \<and> now c1 = now c \<and>
           (\<exists>tid. timers c1 = timers (Stop tid ?c0)) \<and>
           (\<forall>b. key (heap c1 b) = key (heap c b) \<and> val (heap c1 b) = val (heap c b)) \<and>
           (\<forall>j<MaxCacheSize. data c1 ! j =
               (if data c ! j = Some a then below (heap c a) else data c ! j))"
      using delete_present [of ?c0 a] inv a by (simp cong: if_cong)
    then obtain c1 tid where del: "delete ?c0 (hash c (key (heap c a))) (key (heap c a)) = Inr c1"
      and inv1: "cache_inv c1" and l1: "lru c1 = remove1 a (lru c)"
      and f1: "seed c1 = seed c" "now c1 = now c"
      and t1: "timers c1 = timers (Stop tid ?c0)"
      and kv1: "\<forall>b. key (heap c1 b) = key (heap c b) \<and> val (heap c1 b) = val (heap c b)"
      by blast
    have "timers (Stop tid ?c0) = timers (Stop tid c)" by (simp add: Stop_def)
    with t1 have t: "\<exists>tid. timers (c1\<lparr>mtx := False\<rparr>) = timers (Stop tid c)" by auto
    have "entries c1 = filter (\<lambda>p. fst p \<noteq> k) (entries c)"
      using entries_remove [OF inv a] kv1 k by (simp add: entries_def l1)
    with del inv1 f1 t m True k show ?thesis
      by (intro exI [of _ "c1\<lparr>mtx := False\<rparr>"]) (simp add: deleteWithLock_def well_formed_def)
  next
    case False
    from inv_bucket [OF inv i] obtain as where as: "bucket c i as" by blast
    from False have "(\<forall>b\<in>set (lru c). key (heap c b) \<noteq> k) \<or> i \<noteq> hash c k"
      by (auto simp add: absent_iff)
    with as have nk: "\<forall>a\<in>set as. key (heap c a) \<noteq> k" by (rule absent_bucket)
    with as i have "delete ?c0 i k = Inr ?c0"
      by (intro delete_absent [of ?c0 i as k]) (simp_all add: bucket_def)
    then have d: "deleteWithLock c i k = Inr c"
      using m by (simp add: deleteWithLock_def)
    have "filter (\<lambda>p. fst p \<noteq> k) (entries c) = entries c" if "k \<notin> fst ` set (entries c)"
      using that by (intro filter_True) force
    with d wf False show ?thesis by auto
  qed
qed

lemma reachable_inv_NewCache: "reachable_inv (NewCache zv sd)"
  using wf_NewCache [of zv sd] by (simp add: reachable_inv_def timers_ok_def) (simp add: NewCache_def)

lemma well_formed_env:
  "well_formed c \<Longrightarrow> well_formed (c\<lparr>now := t\<rparr>)"
  "well_formed c \<Longrightarrow> length ts = length (timers c) \<Longrightarrow> well_formed (c\<lparr>timers := ts\<rparr>)"
  by (simp_all add: well_formed_def cache_inv_def bucket_def live_def hash_def)

lemma step_inv:
  assumes r: "reachable_inv c"
  shows "\<exists>c'. step zv e c = Inr c' \<and> reachable_inv c' \<and> seed c' = seed c"
proof -
  from r have wf: "well_formed c" and t: "timers_ok c" by (simp_all add: reachable_inv_def)
  show ?thesis
  proof (cases e)
    case (CallGet k)
    from Get_entries [OF wf, of zv k] obtain c' r where
      g: "Get zv k c = Inr (r, c')" and wf': "well_formed c'" and s: "seed c' = seed c" by blast
    have "timers c' = timers c"
    proof (cases "k \<in> fst ` set (entries c)")
      case False
      with Get_miss [OF wf, of k zv] g show ?thesis by (simp add: absent_iff)
    next
      case True
      then obtain a where a: "a \<in> set (lru c)" and k: "key (heap c a) = k"
        by (auto simp add: entries_keys)
      from wf have inv: "cache_inv c" by (simp add: well_formed_def)
      from find_record [OF inv a] obtain xs ys where
        b: "bucket c (hash c (key (heap c a))) (xs @ a # ys)" by blast
      from Get_hit [OF wf a b, of zv] g k show ?thesis by auto
    qed
    with t s have "timers_ok c'" using hash_seed [OF s] by (simp add: timers_ok_def)
    with g wf' s CallGet show ?thesis by (simp add: reachable_inv_def)
  next
    case (CallSet k v ttl)
    from wf have inv: "cache_inv c" by (simp add: well_formed_def)
    from Set_entries [OF wf, of k v ttl] obtain c' where
      g: "Set k v ttl c = Inr c'" and wf': "well_formed c'" and s: "seed c' = seed c" by blast
    from inv have le: "length (lru c) \<le> MaxCacheSize" by (simp add: cache_inv_def)
    have "\<exists>tid d. timers c' = timers (Stop tid c) @ [\<lparr>due = d, t_idx = hash c k, t_key = k, status = Armed\<rparr>]"
    proof (cases "k \<in> fst ` set (entries c)")
      case True
      then obtain a where a: "a \<in> set (lru c)" and k: "key (heap c a) = k"
        by (auto simp add: entries_keys)
      from find_record [OF inv a] obtain xs ys where
        b: "bucket c (hash c (key (heap c a))) (xs @ a # ys)" by blast
      from Set_refresh [OF wf a b, of v ttl] g k show ?thesis by auto
    next
      case False
      then have nk: "\<forall>b\<in>set (lru c). key (heap c b) \<noteq> k" by (simp add: absent_iff)
      show ?thesis
      proof (cases "length (lru c) = MaxCacheSize")
        case True
        from Set_evict [OF wf nk True, of v ttl] g show ?thesis by auto
      next
        case False
        with le have lt: "length (lru c) < MaxCacheSize" by simp
        have "timers (Stop (length (timers c)) c) = timers c" by (simp add: Stop_def)
        with Set_insert(1) [OF wf nk lt, of v ttl] g show ?thesis
          by (intro exI [of _ "length (timers c)"]) (auto simp add: set_new_eq)
      qed
    qed
    then have "timers_ok c'" using t s by (auto intro: timers_ok_new)
    with g wf' s CallSet show ?thesis by (simp add: reachable_inv_def)
  next
    case (Tick d)
    with wf t show ?thesis
      by (simp add: advance_def reachable_inv_def well_formed_env timers_ok_def hash_def)
  next
    case (Expire tid)
    have "timers_ok (expire tid c)"
    proof (cases "tid < length (timers c) \<and> status (timers c ! tid) = Armed
                  \<and> due (timers c ! tid) \<le> now c")
      case True
      then have "timers (expire tid c) = (timers c)[tid := (timers c ! tid)\<lparr>status := Running\<rparr>]"
        by (simp add: expire_def)
      with t show ?thesis by (intro timers_ok_status [of c "expire tid c" tid Running]) (simp_all add: expire_def)
    next
      case False
      then have "expire tid c = c" by (auto simp add: expire_def)
      with t show ?thesis by simp
    qed
    moreover have "well_formed (expire tid c)"
      using wf by (simp add: expire_def well_formed_env)
    moreover have "seed (expire tid c) = seed c" by (simp add: expire_def)
    ultimately show ?thesis using Expire by (simp add: reachable_inv_def)
  next
    case (Callback tid)
    show ?thesis
    proof (cases "tid < length (timers c) \<and> status (timers c ! tid) = Running")
      case False
      with r Callback show ?thesis by (auto simp add: run_callback_def)
    next
      case True
      let ?t = "timers c ! tid"
      let ?c1 = "c\<lparr>timers := (timers c)[tid := ?t\<lparr>status := Finished\<rparr>]\<rparr>"
      have wf1: "well_formed ?c1" using wf by (simp add: well_formed_env)
      have t1: "timers_ok ?c1"
        using t by (rule timers_ok_status) simp_all
      from True t have "t_idx ?t = hash c (t_key ?t)" by (simp add: timers_ok_def)
      then have i: "t_idx ?t < MaxCacheSize" by (simp add: hash_less)
      from deleteWithLock_wf [OF wf1 i, of "t_key ?t"] obtain c' where
        d: "deleteWithLock ?c1 (t_idx ?t) (t_key ?t) = Inr c'" and wf': "well_formed c'"
        and s: "seed c' = seed ?c1"
        and tt: "c' = ?c1 \<or> (\<exists>tid. timers c' = timers (Stop tid ?c1))"
        by blast
      from tt t1 s have "timers_ok c'" by (auto intro: timers_ok_Stop)
      with d wf' s True Callback show ?thesis
        by (simp add: run_callback_def reachable_inv_def)
    qed
  qed
qed

lemma run_inv:
  "reachable_inv c \<Longrightarrow> \<exists>c'. run zv es c = Inr c' \<and> reachable_inv c' \<and> seed c' = seed c"
proof (induction es arbitrary: c)
  case Nil
  then show ?case by simp
next
  case (Cons e es)
  from step_inv [OF Cons.prems, of zv e] obtain c1 where
    s: "step zv e c = Inr c1" and r1: "reachable_inv c1" and sd: "seed c1 = seed c" by blast
  from Cons.IH [OF r1] s sd show ?case by auto
qed

section \<open>The claims about Get and Set\<close>

lemmas eval_defs = Set_def Get_def lookup_def mustBeLocked_def hash_def NewCache_def
  MaxCacheSize_def set_new_def set_reset_def set_evict_def bring_to_top_def set_below_def
  delete_def deleteWithLock_def AfterFunc_def Stop_def PushFront_def MoveToFront_def Remove_def
  Back_def seed0_def Let_def lookup_loop.simps zero_rcd_def advance_def expire_def
  run_callback_def entries_def Get_result_def five_def

lemma map_of_butlast: "es \<noteq> [] \<Longrightarrow> k \<noteq> fst (last es) \<Longrightarrow> map_of (butlast es) k = map_of es k"
  by (induction es) auto

lemma map_of_butlast_last:
  "distinct (map fst es) \<Longrightarrow> es \<noteq> [] \<Longrightarrow> map_of (butlast es) (fst (last es)) = None"
proof (induction es)
  case Nil
  then show ?case by simp
next
  case (Cons e es)
  show ?case
  proof (cases "es = []")
    case True
    then show ?thesis by simp
  next
    case False
    with Cons.prems have "fst (last es) \<noteq> fst e" by (metis distinct.simps(2) image_eqI last_in_set list.simps(9) set_map)
    with False Cons show ?thesis by simp
  qed
qed

lemma Get_result_entries:
  "well_formed c \<Longrightarrow>
   Get_result zv k c = Inr (case map_of (entries c) k of None \<Rightarrow> (zv, False) | Some v \<Rightarrow> (v, True))"
  using Get_entries [of c zv k] by (auto simp add: Get_result_def)

lemma five_state:
  "\<exists>c. run 0 five (NewCache 0 seed0) = Inr c \<and> well_formed c \<and> csize c = 5 \<and>
       lru c = [4, 3, 2, 1, 0] \<and>
       entries c = [(''eeeee'', 5), (''dddd'', 4), (''ccc'', 3), (''bb'', 2), (''a'', 1)]"
proof -
  from run_inv [OF reachable_inv_NewCache, of 0 five 0 seed0] obtain c where
    r: "run 0 five (NewCache 0 seed0) = Inr c" and w: "well_formed c"
    by (auto simp add: reachable_inv_def)
  from r have "csize c = 5 \<and> lru c = [4, 3, 2, 1, 0] \<and>
       entries c = [(''eeeee'', 5), (''dddd'', 4), (''ccc'', 3), (''bb'', 2), (''a'', 1)]"
    by (auto simp add: eval_defs)
  with r w show ?thesis by blast
qed

text \<open>
  C5. In a well-formed cache that holds no record for \<open>k\<close>, \<^verbatim>\<open>Get\<close> returns the zero
  value and \<^verbatim>\<open>false\<close>, and the state it leaves is the state it found: the bucket
  chains, the recency list, the size, the heap of records and the timers.
\<close>

theorem Get_miss_unchanged:
  assumes "well_formed c" and "k \<notin> fst ` set (entries c)"
  shows "Get zv k c = Inr ((zv, False), c)"
proof -
  from assms(2) have "\<forall>b\<in>set (lru c). key (heap c b) \<noteq> k" by (simp add: absent_iff)
  with assms(1) show ?thesis by (rule Get_miss)
qed

theorem Get_miss_unchanged_witness:
  "\<exists>c. run 0 five (NewCache 0 seed0) = Inr c \<and> well_formed c \<and>
       ''zz'' \<notin> fst ` set (entries c) \<and> Get 0 ''zz'' c = Inr ((0, False), c)"
proof -
  from five_state obtain c where c: "run 0 five (NewCache 0 seed0) = Inr c" "well_formed c"
    "entries c = [(''eeeee'', 5), (''dddd'', 4), (''ccc'', 3), (''bb'', 2), (''a'', 1)]" by blast
  then have a: "''zz'' \<notin> fst ` set (entries c)" by simp
  from Get_miss_unchanged [OF c(2) a, of 0] c a show ?thesis by blast
qed

text \<open>
  C4. From a well-formed cache, \<^verbatim>\<open>Set(k, v, ttl)\<close> returns, and a \<^verbatim>\<open>Get(k)\<close> on the
  state it leaves returns \<open>(v, true)\<close>. No step lies between the two calls, so no timer
  fires, and the statement holds for every \<open>ttl\<close>, the positive ones among them.
\<close>

theorem Set_then_Get:
  assumes "well_formed c"
  shows "\<exists>c' c''. Set k v ttl c = Inr c' \<and> Get zv k c' = Inr ((v, True), c'')"
proof -
  from Set_entries [OF assms, of k v ttl] obtain c' es where
    s: "Set k v ttl c = Inr c'" and wf': "well_formed c'" and e: "entries c' = (k, v) # es"
    by blast
  from e have "map_of (entries c') k = Some v" by simp
  with Get_entries [OF wf', of zv k] s show ?thesis by auto
qed

theorem Set_then_Get_witness:
  "\<exists>c. run 0 five (NewCache 0 seed0) = Inr c \<and> well_formed c \<and>
       (\<exists>c' c''. Set ''bb'' 7 (3::int) c = Inr c' \<and> Get 0 ''bb'' c' = Inr ((7, True), c''))"
proof -
  from five_state obtain c where c: "run 0 five (NewCache 0 seed0) = Inr c" "well_formed c"
    by blast
  from Set_then_Get [OF c(2), of "''bb''" 7 3 0] c show ?thesis by blast
qed

text \<open>
  In a well-formed cache whose size is the capacity, \<^verbatim>\<open>Set\<close> of a key that is not
  held returns, and in the state it leaves the entries are the new one followed by the
  old ones without the last: the key of the record at the back of the recency list is
  no longer found, the new key is found with its value, every other key that was held
  is found with the value it had, and every other key is answered as before.
\<close>

lemma evict_back:
  assumes wf: "well_formed c" and full: "csize c = word_of_nat MaxCacheSize"
    and absent: "k \<notin> fst ` set (entries c)"
  shows "\<exists>c'. Set k v ttl c = Inr c' \<and> lru c \<noteq> [] \<and>
           entries c' = (k, v) # butlast (entries c) \<and>
           Get_result zv (key (heap c (last (lru c)))) c' = Inr (zv, False) \<and>
           Get_result zv k c' = Inr (v, True) \<and>
           (\<forall>k' v'. (k', v') \<in> set (entries c) \<and> k' \<noteq> key (heap c (last (lru c))) \<longrightarrow>
               Get_result zv k' c' = Inr (v', True)) \<and>
           (\<forall>k'. k' \<noteq> key (heap c (last (lru c))) \<and> k' \<noteq> k \<longrightarrow>
               Get_result zv k' c' = Get_result zv k' c)"
proof -
  let ?es = "entries c"
  let ?victim = "key (heap c (last (lru c)))"
  from wf have inv: "cache_inv c" by (simp add: well_formed_def)
  from inv have "unat (csize c) = length (lru c)" by (simp add: cache_inv_def)
  moreover from full have "unat (csize c) = MaxCacheSize" by (simp only: csize_full)
  ultimately have len: "length ?es = MaxCacheSize" by (simp add: length_entries)
  then have ne: "?es \<noteq> []" "lru c \<noteq> []" by (auto simp add: MaxCacheSize_def entries_def)
  from Set_entries [OF wf, of k v ttl] absent len obtain c' where
    s: "Set k v ttl c = Inr c'" and wf': "well_formed c'"
    and e: "entries c' = (k, v) # butlast ?es" by auto
  have vic: "fst (last ?es) = ?victim" using ne by (simp add: entries_def last_map)
  have d: "distinct (map fst ?es)" using inv by (rule distinct_keys)
  have vk: "?victim \<noteq> k"
  proof
    assume "?victim = k"
    with vic ne have "k \<in> fst ` set ?es" by (metis image_eqI last_in_set)
    with absent show False by simp
  qed
  have g: "Get_result zv k' c' =
      Inr (case map_of ((k, v) # butlast ?es) k' of None \<Rightarrow> (zv, False) | Some v \<Rightarrow> (v, True))" for k'
    using Get_result_entries [OF wf', of zv k'] by (simp add: e)
  have g1: "Get_result zv ?victim c' = Inr (zv, False)"
    using g [of ?victim] vk map_of_butlast_last [OF d ne(1)] by (simp add: vic)
  have g2: "Get_result zv k c' = Inr (v, True)"
    using g [of k] by simp
  have g3: "Get_result zv k' c' = Get_result zv k' c" if "k' \<noteq> ?victim" "k' \<noteq> k" for k'
    using g [of k'] that map_of_butlast [OF ne(1), of k'] Get_result_entries [OF wf, of zv k']
    by (simp add: vic)
  have g4: "Get_result zv k' c' = Inr (v', True)"
    if "(k', v') \<in> set ?es" "k' \<noteq> ?victim" for k' v'
  proof -
    from that(1) absent have "k' \<noteq> k" by force
    moreover from that(1) d have "map_of ?es k' = Some v'" by simp
    ultimately show ?thesis
      using g3 [OF that(2)] Get_result_entries [OF wf, of zv k'] by simp
  qed
  from s ne e g1 g2 g3 g4 show ?thesis by blast
qed

text \<open>
  C2. Every run from a new cache (the sequences of \<^verbatim>\<open>Set\<close> calls with any keys,
  values and TTLs are among them; a run may also hold \<^verbatim>\<open>Get\<close> calls and timer
  events) ends in a state whose size is at most the capacity, and since every prefix of
  a run is a run, so does each of its calls. From such a state a further \<^verbatim>\<open>Set\<close>
  returns, keeps the bound, and leaves the size unchanged when the key is held, equal to
  the capacity when the cache was full, and one larger otherwise, when it creates a
  record without evicting.
\<close>

theorem size_within_capacity:
  "\<exists>c. run zv es (NewCache zv sd) = Inr c \<and> unat (csize c) \<le> MaxCacheSize \<and>
       (\<forall>k v ttl. \<exists>c'. Set k v ttl c = Inr c' \<and> unat (csize c') \<le> MaxCacheSize \<and>
          csize c' =
            (if k \<in> fst ` set (entries c) then csize c
             else if csize c = word_of_nat MaxCacheSize then word_of_nat MaxCacheSize
             else csize c + 1))"
proof -
  from run_inv [OF reachable_inv_NewCache, of zv es zv sd] obtain c where
    r: "run zv es (NewCache zv sd) = Inr c" and wf: "well_formed c"
    by (auto simp add: reachable_inv_def)
  have le: "unat (csize d) \<le> MaxCacheSize" if "well_formed d" for d :: "'a lruCache"
    using that by (simp add: well_formed_def cache_inv_def)
  have "\<exists>c'. Set k v ttl c = Inr c' \<and> unat (csize c') \<le> MaxCacheSize \<and>
          csize c' =
            (if k \<in> fst ` set (entries c) then csize c
             else if csize c = word_of_nat MaxCacheSize then word_of_nat MaxCacheSize
             else csize c + 1)" for k v ttl
    using Set_entries [OF wf, of k v ttl] le by blast
  with r le [OF wf] show ?thesis by blast
qed

theorem size_within_capacity_witness:
  "\<exists>c. run 0 (five @ [CallSet ''ffffff'' 6 10, CallSet ''bb'' 7 10]) (NewCache 0 seed0) = Inr c \<and>
       unat (csize c) \<le> MaxCacheSize \<and> csize c = 5"
proof -
  from size_within_capacity [of 0 "five @ [CallSet ''ffffff'' 6 10, CallSet ''bb'' 7 10]" seed0]
  obtain c where
    r: "run 0 (five @ [CallSet ''ffffff'' 6 10, CallSet ''bb'' 7 10]) (NewCache 0 seed0) = Inr c"
    and le: "unat (csize c) \<le> MaxCacheSize" by blast
  from r have "csize c = 5" by (auto simp add: eval_defs)
  with r le show ?thesis by blast
qed

lemma chain_last: "chain h p (xs @ ys) \<Longrightarrow> xs \<noteq> [] \<Longrightarrow> chain h (below (h (last xs))) ys"
  by (induction xs arbitrary: p) auto

text \<open>
  C10. When the chain of the bucket of \<open>k\<close> is \<open>xs @ a # ys\<close> and \<open>a\<close> is the record
  of \<open>k\<close>, a \<^verbatim>\<open>Get\<close> of \<open>k\<close> and a \<^verbatim>\<open>Set\<close> of \<open>k\<close> both leave the chain
  \<open>a # xs @ ys\<close>: the bucket head is \<open>a\<close>, and when \<open>a\<close> was not the head, its
  successor is the old head and its former predecessor points where \<open>a\<close> pointed.
\<close>

theorem hit_moves_record_to_chain_head:
  assumes wf: "well_formed c"
    and ch: "chain (heap c) (data c ! hash c k) (xs @ a # ys)" and k: "key (heap c a) = k"
  shows "(\<exists>c'. Get zv k c = Inr ((val (heap c a), True), c') \<and>
            data c' ! hash c k = Some a \<and>
            chain (heap c') (data c' ! hash c k) (a # xs @ ys) \<and>
            (xs \<noteq> [] \<longrightarrow> below (heap c' a) = data c ! hash c k \<and>
                          below (heap c' (last xs)) = below (heap c a))) \<and>
         (\<exists>c'. Set k v ttl c = Inr c' \<and>
            data c' ! hash c k = Some a \<and>
            chain (heap c') (data c' ! hash c k) (a # xs @ ys) \<and>
            (xs \<noteq> [] \<longrightarrow> below (heap c' a) = data c ! hash c k \<and>
                          below (heap c' (last xs)) = below (heap c a)))"
proof -
  let ?i = "hash c k"
  from wf have inv: "cache_inv c" by (simp add: well_formed_def)
  from inv_bucket [OF inv hash_less] obtain as where as: "bucket c ?i as" by blast
  with ch have eq: "as = xs @ a # ys" by (auto simp add: bucket_def dest: chain_unique)
  with as have a: "a \<in> set (lru c)" by (auto simp add: bucket_def live_def)
  from as eq k have b: "bucket c (hash c (key (heap c a))) (xs @ a # ys)" by simp
  have ptr: "below (heap c a) = (if ys = [] then None else Some (hd ys))"
    using chain_suffix [OF ch] by (cases ys) auto
  have shape: "data d ! ?i = Some a \<and>
            (xs \<noteq> [] \<longrightarrow> below (heap d a) = data c ! ?i \<and>
                          below (heap d (last xs)) = below (heap c a))"
    if d: "chain (heap d) (data d ! ?i) (a # xs @ ys)" for d :: "'a lruCache"
  proof -
    from d have h: "data d ! ?i = Some a" and t: "chain (heap d) (below (heap d a)) (xs @ ys)"
      by simp_all
    have "below (heap d a) = data c ! ?i \<and> below (heap d (last xs)) = below (heap c a)"
      if ne: "xs \<noteq> []"
    proof -
      from ne obtain x xs' where x: "xs = x # xs'" by (cases xs) auto
      with t ch have "below (heap d a) = data c ! ?i" by simp
      moreover from chain_last [OF t ne] have "below (heap d (last xs)) = below (heap c a)"
        using ptr by (cases ys) auto
      ultimately show ?thesis by simp
    qed
    with h show ?thesis by simp
  qed
  from Get_hit [OF wf a b, of zv] k obtain c1 where
    "Get zv k c = Inr ((val (heap c a), True), c1)" "bucket c1 ?i (a # xs @ ys)" by auto
  then have "Get zv k c = Inr ((val (heap c a), True), c1) \<and>
      chain (heap c1) (data c1 ! ?i) (a # xs @ ys)" by (simp add: bucket_def)
  with shape [of c1] have g: "\<exists>c'. Get zv k c = Inr ((val (heap c a), True), c') \<and>
            data c' ! ?i = Some a \<and>
            chain (heap c') (data c' ! ?i) (a # xs @ ys) \<and>
            (xs \<noteq> [] \<longrightarrow> below (heap c' a) = data c ! ?i \<and>
                          below (heap c' (last xs)) = below (heap c a))" by blast
  from Set_refresh [OF wf a b, of v ttl] k obtain c2 where
    "Set k v ttl c = Inr c2" "bucket c2 ?i (a # xs @ ys)" by auto
  then have "Set k v ttl c = Inr c2 \<and>
      chain (heap c2) (data c2 ! ?i) (a # xs @ ys)" by (simp add: bucket_def)
  with shape [of c2] have s: "\<exists>c'. Set k v ttl c = Inr c' \<and>
            data c' ! ?i = Some a \<and>
            chain (heap c') (data c' ! ?i) (a # xs @ ys) \<and>
            (xs \<noteq> [] \<longrightarrow> below (heap c' a) = data c ! ?i \<and>
                          below (heap c' (last xs)) = below (heap c a))" by blast
  from g s show ?thesis by blast
qed

theorem hit_moves_record_to_chain_head_witness:
  "\<exists>c. run 0 six (NewCache 0 seed0) = Inr c \<and> well_formed c \<and> hash c ''a'' = 1 \<and>
       chain (heap c) (data c ! 1) ([3, 2] @ 0 # []) \<and> key (heap c 0) = ''a'' \<and>
       (\<exists>c'. Get 0 ''a'' c = Inr ((1, True), c') \<and> data c' ! 1 = Some 0 \<and>
             chain (heap c') (data c' ! 1) [0, 3, 2] \<and> below (heap c' 0) = Some 3 \<and>
             below (heap c' 2) = None) \<and>
       (\<exists>c'. Set ''a'' 9 (10::int) c = Inr c' \<and> data c' ! 1 = Some 0 \<and>
             chain (heap c') (data c' ! 1) [0, 3, 2])"
proof -
  from run_inv [OF reachable_inv_NewCache, of 0 six 0 seed0] obtain c where
    r: "run 0 six (NewCache 0 seed0) = Inr c" and w: "well_formed c"
    by (auto simp add: reachable_inv_def)
  from r have f: "hash c ''a'' = 1" "chain (heap c) (data c ! hash c ''a'') ([3, 2] @ 0 # [])"
    "key (heap c 0) = ''a''" "val (heap c 0) = 1" "data c ! 1 = Some 3" "below (heap c 0) = None"
    by (auto simp add: eval_defs six_def)
  from hit_moves_record_to_chain_head [OF w f(2) f(3), of 0 9 10] f r w
  show ?thesis by auto
qed

section \<open>The claims about the chains and delete\<close>

lemma inv_consistent:
  assumes inv: "cache_inv c"
  shows "consistent c"
proof -
  have 1: "\<exists>as. chain (heap c) (data c ! i) as \<and> distinct as \<and> set as \<subseteq> set (lru c)"
    if "i < MaxCacheSize" for i
    using inv_bucket [OF inv that] by (auto simp add: bucket_def live_def)
  have 2: "\<exists>!i. i < MaxCacheSize \<and> (\<exists>as. chain (heap c) (data c ! i) as \<and> a \<in> set as)"
    if a: "a \<in> set (lru c)" for a
  proof
    let ?i = "hash c (key (heap c a))"
    from inv_bucket [OF inv hash_less] obtain as where "bucket c ?i as" by blast
    with a show "?i < MaxCacheSize \<and> (\<exists>as. chain (heap c) (data c ! ?i) as \<and> a \<in> set as)"
      by (auto simp add: bucket_def live_def hash_less)
  next
    fix j assume j: "j < MaxCacheSize \<and> (\<exists>as. chain (heap c) (data c ! j) as \<and> a \<in> set as)"
    then obtain as where as: "chain (heap c) (data c ! j) as" "a \<in> set as" by blast
    from j inv_bucket [OF inv] obtain bs where bs: "bucket c j bs" by blast
    with as have "as = bs" by (auto simp add: bucket_def dest: chain_unique)
    with as bs show "j = hash c (key (heap c a))" by (auto simp add: bucket_def live_def)
  qed
  from 1 2 show ?thesis unfolding consistent_def by blast
qed

lemma delete_inv:
  assumes inv: "cache_inv c" and m: "mtx c" and i: "i < MaxCacheSize"
  shows "\<exists>c'. delete c i k = Inr c' \<and> cache_inv c' \<and> mtx c'"
proof (cases "i = hash c k \<and> k \<in> fst ` set (entries c)")
  case True
  then obtain a where a: "a \<in> set (lru c)" and k: "key (heap c a) = k"
    by (auto simp add: entries_keys)
  from delete_present [OF inv m a] k True show ?thesis by auto
next
  case False
  from inv_bucket [OF inv i] obtain as where as: "bucket c i as" by blast
  from False have "(\<forall>b\<in>set (lru c). key (heap c b) \<noteq> k) \<or> i \<noteq> hash c k"
    by (auto simp add: absent_iff)
  with as have "\<forall>a\<in>set as. key (heap c a) \<noteq> k" by (rule absent_bucket)
  with as m i have "delete c i k = Inr c"
    by (intro delete_absent [of c i as k]) (simp_all add: bucket_def)
  with inv m show ?thesis by simp
qed

text \<open>
  C9. From a well-formed cache, \<^verbatim>\<open>Get\<close>, \<^verbatim>\<open>Set\<close> (in each of its cases, the eviction
  of the head of the bucket of the new key among them), \<^verbatim>\<open>deleteWithLock\<close> and
  \<^verbatim>\<open>delete\<close> under the lock return, and in the state each leaves every bucket chain
  ends, has no record twice and only records of the recency list, and every record of
  the recency list is on the chain of exactly one bucket.
\<close>

theorem chains_hold_the_recency_list:
  assumes wf: "well_formed c"
  shows "(\<exists>r c'. Get zv kg c = Inr (r, c') \<and> consistent c') \<and>
         (\<exists>c'. Set ks v ttl c = Inr c' \<and> consistent c') \<and>
         (i < MaxCacheSize \<longrightarrow>
            (\<exists>c'. deleteWithLock c i kd = Inr c' \<and> consistent c') \<and>
            (\<exists>c'. delete (c\<lparr>mtx := True\<rparr>) i kd = Inr c' \<and> consistent c'))"
proof -
  have ok: "consistent d" if "well_formed d" for d :: "'a lruCache"
    using that by (simp add: well_formed_def inv_consistent)
  from wf have inv: "cache_inv c" by (simp add: well_formed_def)
  from Get_entries [OF wf, of zv kg] ok have g: "\<exists>r c'. Get zv kg c = Inr (r, c') \<and> consistent c'"
    by blast
  from Set_entries [OF wf, of ks v ttl] ok have s: "\<exists>c'. Set ks v ttl c = Inr c' \<and> consistent c'"
    by blast
  have d: "(\<exists>c'. deleteWithLock c i kd = Inr c' \<and> consistent c') \<and>
           (\<exists>c'. delete (c\<lparr>mtx := True\<rparr>) i kd = Inr c' \<and> consistent c')" if i: "i < MaxCacheSize"
  proof -
    from deleteWithLock_wf [OF wf i, of kd] ok
    have "\<exists>c'. deleteWithLock c i kd = Inr c' \<and> consistent c'" by blast
    moreover from delete_inv [of "c\<lparr>mtx := True\<rparr>" i kd] inv i
    have "\<exists>c'. delete (c\<lparr>mtx := True\<rparr>) i kd = Inr c' \<and> consistent c'"
      by (auto intro: inv_consistent)
    ultimately show ?thesis by blast
  qed
  from g s d show ?thesis by blast
qed

theorem chains_hold_the_recency_list_witness:
  "\<exists>c. run 0 five (NewCache 0 seed0) = Inr c \<and> well_formed c \<and>
       hash c ''ffffff'' = 1 \<and> data c ! 1 = Some 0 \<and> last (lru c) = 0 \<and>
       (\<exists>r c'. Get 0 ''bb'' c = Inr (r, c') \<and> consistent c') \<and>
       (\<exists>c'. Set ''ffffff'' 6 (10::int) c = Inr c' \<and> consistent c') \<and>
       (\<exists>c'. deleteWithLock c 2 ''bb'' = Inr c' \<and> consistent c') \<and>
       (\<exists>c'. delete (c\<lparr>mtx := True\<rparr>) 2 ''bb'' = Inr c' \<and> consistent c')"
proof -
  from run_inv [OF reachable_inv_NewCache, of 0 five 0 seed0] obtain c where
    r: "run 0 five (NewCache 0 seed0) = Inr c" and w: "well_formed c"
    by (auto simp add: reachable_inv_def)
  from r have f: "hash c ''ffffff'' = 1" "data c ! 1 = Some 0" "last (lru c) = 0"
    by (auto simp add: eval_defs)
  have "(2::nat) < MaxCacheSize" by (simp add: MaxCacheSize_def)
  with chains_hold_the_recency_list [OF w, of 0 "''bb''" "''ffffff''" 6 10 2 "''bb''"]
  have "(\<exists>r c'. Get 0 ''bb'' c = Inr (r, c') \<and> consistent c') \<and>
        (\<exists>c'. Set ''ffffff'' 6 (10::int) c = Inr c' \<and> consistent c') \<and>
        (\<exists>c'. deleteWithLock c 2 ''bb'' = Inr c' \<and> consistent c') \<and>
        (\<exists>c'. delete (c\<lparr>mtx := True\<rparr>) 2 ''bb'' = Inr c' \<and> consistent c')" by blast
  then show ?thesis using r w f by blast
qed

text \<open>
  Let \<open>as\<close> be the chain of bucket \<open>i\<close>. When no record of \<open>as\<close> has the key
  \<open>k\<close>, \<^verbatim>\<open>delete\<close> under the lock, and \<^verbatim>\<open>deleteWithLock\<close> when a timer fires with the
  lock free, return the state they were given: chains, recency list and size are
  untouched. When \<open>as = xs @ a # ys\<close> and \<open>a\<close> has the key, \<^verbatim>\<open>delete\<close> calls \<^verbatim>\<open>Stop\<close> on
  the timer of \<open>a\<close>, which is not armed afterwards (it is stopped when it was armed,
  and stays running when it had expired), leaves the chain \<open>xs @ ys\<close> by writing the
  successor of \<open>a\<close> into the bucket head (no predecessor) or into the predecessor,
  takes \<open>a\<close> off the recency list and makes the size one smaller.
\<close>

lemma delete_noop_or_unlink:
  assumes inv: "cache_inv c" and i: "i < MaxCacheSize"
    and ch: "chain (heap c) (data c ! i) as"
  shows "((\<forall>a\<in>set as. key (heap c a) \<noteq> k) \<longrightarrow>
            (mtx c \<longrightarrow> delete c i k = Inr c) \<and> (\<not> mtx c \<longrightarrow> deleteWithLock c i k = Inr c)) \<and>
         (\<forall>xs a ys. mtx c \<and> as = xs @ a # ys \<and> key (heap c a) = k \<longrightarrow>
            (\<exists>c' tid. delete c i k = Inr c' \<and>
               tmr (heap c a) = Some tid \<and> tid < length (timers c) \<and>
               timers c' = timers (Stop tid c) \<and> status (timers c' ! tid) \<noteq> Armed \<and>
               chain (heap c') (data c' ! i) (xs @ ys) \<and>
               (xs = [] \<longrightarrow> data c' = (data c)[i := below (heap c a)] \<and> heap c' = heap c) \<and>
               (xs \<noteq> [] \<longrightarrow> data c' = data c \<and>
                  heap c' = (heap c)(last xs := (heap c (last xs))\<lparr>below := below (heap c a)\<rparr>)) \<and>
               lru c' = remove1 a (lru c) \<and> a \<in> set (lru c) \<and>
               csize c' = csize c - 1 \<and> unat (csize c) = Suc (unat (csize c')) \<and>
               cache_inv c'))"
proof -
  have absent: "(mtx c \<longrightarrow> delete c i k = Inr c) \<and> (\<not> mtx c \<longrightarrow> deleteWithLock c i k = Inr c)"
    if nk: "\<forall>a\<in>set as. key (heap c a) \<noteq> k"
  proof -
    have "delete c i k = Inr c" if "mtx c"
      using that i ch nk by (rule delete_absent)
    moreover have "deleteWithLock c i k = Inr c" if m: "\<not> mtx c"
    proof -
      have "delete (c\<lparr>mtx := True\<rparr>) i k = Inr (c\<lparr>mtx := True\<rparr>)"
        using i ch nk by (intro delete_absent [of _ i as k]) simp_all
      with m show ?thesis by (simp add: deleteWithLock_def)
    qed
    ultimately show ?thesis by blast
  qed
  have present: "\<exists>c' tid. delete c i k = Inr c' \<and>
               tmr (heap c a) = Some tid \<and> tid < length (timers c) \<and>
               timers c' = timers (Stop tid c) \<and> status (timers c' ! tid) \<noteq> Armed \<and>
               chain (heap c') (data c' ! i) (xs @ ys) \<and>
               (xs = [] \<longrightarrow> data c' = (data c)[i := below (heap c a)] \<and> heap c' = heap c) \<and>
               (xs \<noteq> [] \<longrightarrow> data c' = data c \<and>
                  heap c' = (heap c)(last xs := (heap c (last xs))\<lparr>below := below (heap c a)\<rparr>)) \<and>
               lru c' = remove1 a (lru c) \<and> a \<in> set (lru c) \<and>
               csize c' = csize c - 1 \<and> unat (csize c) = Suc (unat (csize c')) \<and>
               cache_inv c'"
    if m: "mtx c" and eq: "as = xs @ a # ys" and k: "key (heap c a) = k" for xs a ys
  proof -
    from inv_bucket [OF inv i] obtain bs where bs: "bucket c i bs" by blast
    with ch have "bs = as" by (auto simp add: bucket_def dest: chain_unique)
    with bs eq have b: "bucket c i (xs @ a # ys)" by simp
    then have ch': "chain (heap c) (data c ! i) (xs @ a # ys)"
      and d: "distinct (xs @ a # ys)" and lv: "set (xs @ a # ys) = live c i"
      by (simp_all add: bucket_def)
    from lv have a: "a \<in> set (lru c)" and hi: "hash c (key (heap c a)) = i"
      by (auto simp add: live_def)
    have nk: "\<forall>x\<in>set xs. key (heap c x) \<noteq> k"
    proof
      fix x assume x: "x \<in> set xs"
      with lv have "x \<in> live c i" by auto
      then have "x \<in> set (lru c)" by (simp add: live_def)
      moreover from x d have "x \<noteq> a" by auto
      ultimately show "key (heap c x) \<noteq> k"
        using inv a k by (auto simp add: cache_inv_def inj_on_def)
    qed
    from inv a obtain tid where t: "tmr (heap c a) = Some tid" "tid < length (timers c)"
      by (auto simp add: cache_inv_def)
    from inv have len: "length (data c) = MaxCacheSize" by (simp add: cache_inv_def)
    define c' where "c' = (if xs = [] then (Stop tid c)\<lparr>data := (data c)[i := below (heap c a)]\<rparr>
           else set_below (last xs) (below (heap c a)) (Stop tid c))
          \<lparr>lru := remove1 a (lru c), csize := csize c - 1\<rparr>"
    have del: "delete c i k = Inr c'"
      unfolding c'_def using m i ch' d nk k t(1) by (rule delete_at)
    from delete_present [OF inv m a] del hi k have inv': "cache_inv c'" by auto
    have tm: "timers c' = timers (Stop tid c)"
      by (simp add: c'_def set_below_fields)
    have st: "status (timers (Stop tid c) ! tid) \<noteq> Armed"
      using t(2) by (cases "status (timers c ! tid) = Armed") (simp_all add: Stop_def)
    have hp: "heap c' = (if xs = [] then heap c
                       else (heap c)(last xs := (heap c (last xs))\<lparr>below := below (heap c a)\<rparr>))"
      by (simp add: c'_def Stop_fields set_below_fields)
    have dt: "data c' = (if xs = [] then (data c)[i := below (heap c a)] else data c)"
      by (simp add: c'_def Stop_fields set_below_fields)
    have chn: "chain (heap c') (data c' ! i) (xs @ ys)"
    proof (cases "xs = []")
      case True
      with ch' have "chain (heap c) (below (heap c a)) ys" by simp
      with True i len show ?thesis by (simp add: hp dt)
    next
      case False
      with chain_unlink [OF ch' d False] show ?thesis by (simp add: hp dt)
    qed
    have l: "lru c' = remove1 a (lru c)" "csize c' = csize c - 1" by (simp_all add: c'_def)
    from a obtain n where n: "length (lru c) = Suc n" by (cases "lru c") auto
    with l(1) a have "length (lru c') = n" by (simp add: length_remove1)
    with inv inv' n have sz: "unat (csize c) = Suc (unat (csize c'))"
      by (simp add: cache_inv_def)
    from del t tm st chn hp dt l a sz inv' show ?thesis
      by (intro exI [of _ c'] exI [of _ tid]) simp
  qed
  from absent present show ?thesis by blast
qed

lemma delete_noop_or_unlink_example:
  "\<exists>c. run 0 six (NewCache 0 seed0) = Inr c \<and> cache_inv (c\<lparr>mtx := True\<rparr>) \<and> cache_inv c \<and>
       chain (heap c) (data c ! 1) ([3] @ 2 # [0]) \<and> key (heap c 2) = ''ffffff'' \<and>
       deleteWithLock c 1 ''zzzzzz'' = Inr c \<and>
       delete (c\<lparr>mtx := True\<rparr>) 1 ''zzzzzz'' = Inr (c\<lparr>mtx := True\<rparr>) \<and>
       (\<exists>c'. delete (c\<lparr>mtx := True\<rparr>) 1 ''ffffff'' = Inr c' \<and>
          chain (heap c') (data c' ! 1) [3, 0] \<and> lru c' = [3, 1, 0] \<and>
          unat (csize c) = Suc (unat (csize c')) \<and> status (timers c' ! 2) = Stopped)"
proof -
  from run_inv [OF reachable_inv_NewCache, of 0 six 0 seed0] obtain c where
    r: "run 0 six (NewCache 0 seed0) = Inr c" and w: "well_formed c"
    by (auto simp add: reachable_inv_def)
  let ?c = "c\<lparr>mtx := True\<rparr>"
  from w have inv: "cache_inv c" "\<not> mtx c" "cache_inv ?c" by (simp_all add: well_formed_def)
  have i: "(1::nat) < MaxCacheSize" by (simp add: MaxCacheSize_def)
  from r have f: "chain (heap c) (data c ! 1) ([3] @ 2 # [0])" "key (heap c 2) = ''ffffff''"
    "key (heap c 3) = ''k''" "key (heap c 0) = ''a''" "lru c = [3, 2, 1, 0]"
    "tmr (heap c 2) = Some 2" "status (timers c ! 2) = Armed" "length (timers c) = 4"
    by (auto simp add: eval_defs six_def)
  then have nz: "\<forall>a\<in>set ([3] @ 2 # [0]). key (heap c a) \<noteq> ''zzzzzz''" by simp
  from delete_noop_or_unlink [OF inv(1) i f(1), of "''zzzzzz''"] nz inv(2)
  have 1: "deleteWithLock c 1 ''zzzzzz'' = Inr c" by blast
  have f': "chain (heap ?c) (data ?c ! 1) ([3] @ 2 # [0])" using f(1) by simp
  from delete_noop_or_unlink [OF inv(3) i f', of "''zzzzzz''"] nz
  have 2: "delete ?c 1 ''zzzzzz'' = Inr ?c" by simp
  have "mtx ?c \<and> [3] @ 2 # [0] = [3] @ 2 # [0] \<and> key (heap ?c 2) = ''ffffff''"
    using f(2) by simp
  with delete_noop_or_unlink [OF inv(3) i f', of "''ffffff''", THEN conjunct2, rule_format,
      of "[3]" 2 "[0]"]
  obtain c' tid where d: "delete ?c 1 ''ffffff'' = Inr c'"
    "tmr (heap ?c 2) = Some tid" "timers c' = timers (Stop tid ?c)"
    "chain (heap c') (data c' ! 1) ([3] @ [0])" "lru c' = remove1 2 (lru ?c)"
    "unat (csize ?c) = Suc (unat (csize c'))"
    by (auto simp del: append.simps)
  from d(2,3) f(6,7,8) have "status (timers c' ! 2) = Stopped" by (simp add: Stop_def)
  with d f(5) have "delete ?c 1 ''ffffff'' = Inr c' \<and>
          chain (heap c') (data c' ! 1) [3, 0] \<and> lru c' = [3, 1, 0] \<and>
          unat (csize c) = Suc (unat (csize c')) \<and> status (timers c' ! 2) = Stopped" by simp
  with r inv f(1,2) 1 2 show ?thesis by blast
qed

section \<open>The capacity and the timers\<close>

text \<open>
  C7, as the specification states it: the caller chooses the capacity at construction.
  \<^verbatim>\<open>NewCache\<close> has no such argument: whatever the caller passes (the type parameter,
  and the seed that is drawn for it), the new cache never has, for one, the capacity
  100.
\<close>

theorem capacity_not_chosen_by_caller:
  "\<not> (\<exists>zv sd. capacity (NewCache (zv :: nat) sd) = 100)"
  by (simp add: capacity_def NewCache_def MaxCacheSize_def)

text \<open>
  C7, amended: the capacity of every cache is the package constant \<^verbatim>\<open>MaxCacheSize\<close>,
  5 in this source, the length of the array type of \<^verbatim>\<open>data\<close>; it is the capacity of
  a new cache and of the state after any run, and the size never exceeds it.
\<close>

theorem capacity_is_MaxCacheSize:
  "capacity (NewCache zv sd) = MaxCacheSize \<and> MaxCacheSize = 5 \<and>
   (\<exists>c. run zv es (NewCache zv sd) = Inr c \<and> capacity c = MaxCacheSize \<and>
        unat (csize c) \<le> capacity c)"
proof -
  from run_inv [OF reachable_inv_NewCache, of zv es zv sd] obtain c where
    r: "run zv es (NewCache zv sd) = Inr c" and wf: "well_formed c"
    by (auto simp add: reachable_inv_def)
  from wf have "capacity c = MaxCacheSize" "unat (csize c) \<le> capacity c"
    by (simp_all add: well_formed_def cache_inv_def capacity_def)
  moreover have "capacity (NewCache zv sd) = MaxCacheSize"
    by (simp add: capacity_def NewCache_def)
  ultimately show ?thesis using r by (auto simp add: MaxCacheSize_def)
qed

theorem capacity_is_MaxCacheSize_witness:
  "capacity (NewCache (0::nat) seed0) = 5 \<and>
   (\<exists>c. run 0 (five @ [CallSet ''ffffff'' 6 10]) (NewCache 0 seed0) = Inr c \<and> capacity c = 5 \<and>
        unat (csize c) \<le> 5)"
  using capacity_is_MaxCacheSize [of 0 seed0 "five @ [CallSet ''ffffff'' 6 10]"]
  by auto

text \<open>
  A refresh of a key whose timer is still armed stops that timer for good: it can
  neither expire nor run afterwards.
\<close>

lemma refresh_stops_armed_timer:
  assumes wf: "well_formed c" and a: "a \<in> set (lru c)"
    and old: "tmr (heap c a) = Some old" and armed: "status (timers c ! old) = Armed"
  shows "\<exists>c'. Set (key (heap c a)) v ttl c = Inr c' \<and> status (timers c' ! old) = Stopped \<and>
           expire old c' = c' \<and> run_callback old c' = Inr c'"
proof -
  from wf have inv: "cache_inv c" by (simp add: well_formed_def)
  from inv a old have lt: "old < length (timers c)" by (auto simp add: cache_inv_def)
  from find_record [OF inv a] obtain xs ys where
    b: "bucket c (hash c (key (heap c a))) (xs @ a # ys)" by blast
  from Set_refresh [OF wf a b, of v ttl] old obtain c' where
    s: "Set (key (heap c a)) v ttl c = Inr c'"
    and t: "timers c' = timers (Stop old c) @
              [\<lparr>due = now c + ttl, t_idx = hash c (key (heap c a)), t_key = key (heap c a),
                status = Armed\<rparr>]"
    by auto
  from lt armed have st: "status (timers c' ! old) = Stopped"
    by (simp add: t Stop_def nth_append)
  then have "expire old c' = c'" "run_callback old c' = Inr c'"
    by (simp_all add: expire_def run_callback_def)
  with s st show ?thesis by blast
qed

text \<open>
  The scenario of the specification: \<^verbatim>\<open>Set(k, v1, 2)\<close>, then \<^verbatim>\<open>Set(k, v2, 5)\<close> at
  time 1; at time 3 the first timer cannot expire and \<^verbatim>\<open>Get(k)\<close> finds \<open>v2\<close>; after
  time 6 the second timer has fired and \<^verbatim>\<open>Get(k)\<close> finds nothing.
\<close>

lemma refresh_before_expiry:
  "\<exists>c d. run 0 [CallSet ''k'' 1 2, Tick 1, CallSet ''k'' 2 5, Tick 2, Expire 0, Callback 0]
            (NewCache (0::nat) seed0) = Inr c \<and>
         now c = 3 \<and> Get_result 0 ''k'' c = Inr (2, True) \<and>
         run 0 [Tick 4, Expire 1, Callback 1] c = Inr d \<and>
         now d = 7 \<and> Get_result 0 ''k'' d = Inr (0, False)"
  by (simp add: eval_defs)

text \<open>
  C3 fails on the code. \<^verbatim>\<open>Set(k, v1, 2)\<close>; two time units pass and the runtime starts
  the callback of the timer, which has to wait for the lock; \<^verbatim>\<open>Set(k, v2, 5)\<close> gets the
  lock first and refreshes the record, its \<^verbatim>\<open>Stop\<close> of the expired timer having no
  effect; then the callback runs \<^verbatim>\<open>deleteWithLock\<close>, which looks the key up and removes
  the refreshed record. A \<^verbatim>\<open>Get(k)\<close> at that same time, five units before the new
  TTL ends, finds nothing.
\<close>

theorem expired_timer_erases_refreshed_record:
  "\<exists>c1 c2 c3. Set ''k'' (1::nat) 2 (NewCache 0 seed0) = Inr c1 \<and>
      status (timers (expire 0 (advance 2 c1)) ! 0) = Running \<and>
      Set ''k'' 2 5 (expire 0 (advance 2 c1)) = Inr c2 \<and>
      entries c2 = [(''k'', 2)] \<and> now c2 = 2 \<and>
      tmr (heap c2 0) = Some 1 \<and> due (timers c2 ! 1) = 7 \<and> status (timers c2 ! 1) = Armed \<and>
      status (timers c2 ! 0) = Running \<and>
      run_callback 0 c2 = Inr c3 \<and> now c3 = 2 \<and> entries c3 = [] \<and>
      Get 0 ''k'' c3 = Inr ((0, False), c3)"
  by (simp add: eval_defs)

section \<open>Eviction follows the order of touches\<close>

lemma last_touch_le: "last_touch es k \<le> length es"
  by (induction es) auto

lemma last_touch_snoc:
  "last_touch (es @ [e]) k = (if touches e = Some k then Suc (length es) else last_touch es k)"
  by (induction es) auto

lemma run_append:
  "run zv (es @ fs) c = (case run zv es c of Inl x \<Rightarrow> Inl x | Inr c' \<Rightarrow> run zv fs c')"
  by (induction es arbitrary: c) (auto split: sum.splits)

lemma step_entries:
  assumes r: "reachable_inv c" and s: "step zv e c = Inr c'"
  shows "(case e of
            CallGet k \<Rightarrow>
              entries c' = (case map_of (entries c) k of None \<Rightarrow> entries c
                            | Some v \<Rightarrow> (k, v) # filter (\<lambda>p. fst p \<noteq> k) (entries c))
          | CallSet k v ttl \<Rightarrow>
              entries c' = (k, v) #
                (if k \<in> fst ` set (entries c) then filter (\<lambda>p. fst p \<noteq> k) (entries c)
                 else if length (entries c) = MaxCacheSize then butlast (entries c)
                 else entries c)
          | _ \<Rightarrow> (\<exists>P. entries c' = filter P (entries c)))"
proof -
  from r have wf: "well_formed c" and t: "timers_ok c" by (simp_all add: reachable_inv_def)
  have same: "\<exists>P. entries d = filter P (entries c)" if "entries d = entries c" for d :: "'a lruCache"
    using that by (intro exI [of _ "\<lambda>_. True"]) simp
  show ?thesis
  proof (cases e)
    case (CallGet k)
    with Get_entries [OF wf, of zv k] s show ?thesis by auto
  next
    case (CallSet k v ttl)
    with Set_entries [OF wf, of k v ttl] s show ?thesis by auto
  next
    case (Tick d)
    with s have "entries c' = entries c" by (auto simp add: advance_def entries_def)
    with Tick same show ?thesis by simp
  next
    case (Expire tid)
    with s have "entries c' = entries c" by (auto simp add: expire_def entries_def)
    with Expire same show ?thesis by simp
  next
    case (Callback tid)
    show ?thesis
    proof (cases "tid < length (timers c) \<and> status (timers c ! tid) = Running")
      case False
      with s Callback have "c' = c" by (auto simp add: run_callback_def)
      with Callback same show ?thesis by simp
    next
      case True
      let ?t = "timers c ! tid"
      let ?c1 = "c\<lparr>timers := (timers c)[tid := ?t\<lparr>status := Finished\<rparr>]\<rparr>"
      have wf1: "well_formed ?c1" using wf by (simp add: well_formed_env)
      have e1: "entries ?c1 = entries c" by (simp add: entries_def)
      from True t have "t_idx ?t = hash c (t_key ?t)" by (simp add: timers_ok_def)
      then have i: "t_idx ?t < MaxCacheSize" by (simp add: hash_less)
      from s Callback True have d: "deleteWithLock ?c1 (t_idx ?t) (t_key ?t) = Inr c'"
        by (simp add: run_callback_def)
      from deleteWithLock_wf [OF wf1 i, of "t_key ?t"] d
      have "entries c' = filter (\<lambda>p. fst p \<noteq> t_key ?t) (entries ?c1) \<or> entries c' = entries ?c1"
        by (auto split: if_splits)
      with e1 same [of c'] Callback show ?thesis by auto
    qed
  qed
qed

lemma recency_sorted_step:
  assumes r: "reachable_inv c" and s: "step zv e c = Inr c'" and srt: "recency_sorted es c"
  shows "recency_sorted (es @ [e]) c'"
proof -
  let ?R = "\<lambda>fs p q. last_touch fs (fst q) < last_touch fs (fst p)"
  from srt have so: "sorted_wrt (?R es) (entries c)"
    and pos: "\<forall>p\<in>set (entries c). 0 < last_touch es (fst p)"
    by (simp_all add: recency_sorted_def)
  have keep: "recency_sorted (es @ [e]) d"
    if sub: "sorted_wrt (?R es) (entries d)" "set (entries d) \<subseteq> set (entries c)"
      and nt: "\<forall>p\<in>set (entries d). touches e \<noteq> Some (fst p)" for d :: "'a lruCache"
  proof -
    from nt have eq: "last_touch (es @ [e]) (fst p) = last_touch es (fst p)"
      if "p \<in> set (entries d)" for p
      using that by (simp add: last_touch_snoc)
    have "sorted_wrt (?R (es @ [e])) (entries d)"
      using sub(1) eq by (auto elim!: sorted_wrt_mono_rel [rotated])
    moreover have "\<forall>p\<in>set (entries d). 0 < last_touch (es @ [e]) (fst p)"
      using pos sub(2) eq by auto
    ultimately show ?thesis by (simp add: recency_sorted_def)
  qed
  have front: "recency_sorted (es @ [e]) d"
    if hd: "entries d = (k, v) # rest" and tk: "touches e = Some k"
      and sub: "sorted_wrt (?R es) rest" "set rest \<subseteq> set (entries c)"
      and nk: "\<forall>p\<in>set rest. fst p \<noteq> k" for d :: "'a lruCache" and k v rest
  proof -
    have eq: "last_touch (es @ [e]) (fst p) = last_touch es (fst p)" if "p \<in> set rest" for p
      using that nk tk by (auto simp add: last_touch_snoc)
    have top: "last_touch (es @ [e]) k = Suc (length es)"
      using tk by (simp add: last_touch_snoc)
    have "sorted_wrt (?R (es @ [e])) rest"
      using sub(1) eq by (auto elim!: sorted_wrt_mono_rel [rotated])
    moreover have "\<forall>p\<in>set rest. last_touch (es @ [e]) (fst p) < last_touch (es @ [e]) k"
      using eq top last_touch_le [of es] by (auto simp add: less_Suc_eq_le)
    moreover have "\<forall>p\<in>set rest. 0 < last_touch (es @ [e]) (fst p)"
      using pos sub(2) eq by auto
    ultimately show ?thesis using top by (simp add: recency_sorted_def hd)
  qed
  have fl: "sorted_wrt (?R es) (filter P (entries c))" for P
    using so by (rule sorted_wrt_filter)
  have bl: "sorted_wrt (?R es) (butlast (entries c))"
    using so by (simp add: butlast_conv_take)
  show ?thesis
  proof (cases e)
    case (CallGet k)
    with step_entries [OF r s] have e': "entries c' =
        (case map_of (entries c) k of None \<Rightarrow> entries c
         | Some v \<Rightarrow> (k, v) # filter (\<lambda>p. fst p \<noteq> k) (entries c))" by simp
    show ?thesis
    proof (cases "map_of (entries c) k")
      case None
      with e' have "entries c' = entries c" by simp
      moreover from None have "\<forall>p\<in>set (entries c). fst p \<noteq> k"
        by (auto simp add: map_of_eq_None_iff)
      ultimately show ?thesis using so CallGet by (intro keep) auto
    next
      case (Some v)
      with e' have "entries c' = (k, v) # filter (\<lambda>p. fst p \<noteq> k) (entries c)" by simp
      then show ?thesis
      proof (rule front)
        show "touches e = Some k" using CallGet by simp
        show "sorted_wrt (?R es) (filter (\<lambda>p. fst p \<noteq> k) (entries c))" by (rule fl)
      qed auto
    qed
  next
    case (CallSet k v ttl)
    with step_entries [OF r s] have e': "entries c' = (k, v) #
                (if k \<in> fst ` set (entries c) then filter (\<lambda>p. fst p \<noteq> k) (entries c)
                 else if length (entries c) = MaxCacheSize then butlast (entries c)
                 else entries c)" by simp
    show ?thesis using e'
    proof (rule front)
      show "touches e = Some k" using CallSet by simp
      show "sorted_wrt (?R es)
              (if k \<in> fst ` set (entries c) then filter (\<lambda>p. fst p \<noteq> k) (entries c)
               else if length (entries c) = MaxCacheSize then butlast (entries c)
               else entries c)"
        using fl bl so by simp
      show "set (if k \<in> fst ` set (entries c) then filter (\<lambda>p. fst p \<noteq> k) (entries c)
               else if length (entries c) = MaxCacheSize then butlast (entries c)
               else entries c) \<subseteq> set (entries c)"
        by (auto dest: in_set_butlastD)
      show "\<forall>p\<in>set (if k \<in> fst ` set (entries c) then filter (\<lambda>p. fst p \<noteq> k) (entries c)
               else if length (entries c) = MaxCacheSize then butlast (entries c)
               else entries c). fst p \<noteq> k"
        by (auto dest: in_set_butlastD)
    qed
  next
    case (Tick d)
    with step_entries [OF r s] obtain P where "entries c' = filter P (entries c)" by auto
    with fl Tick show ?thesis by (intro keep) auto
  next
    case (Expire tid)
    with step_entries [OF r s] obtain P where "entries c' = filter P (entries c)" by auto
    with fl Expire show ?thesis by (intro keep) auto
  next
    case (Callback tid)
    with step_entries [OF r s] obtain P where "entries c' = filter P (entries c)" by auto
    with fl Callback show ?thesis by (intro keep) auto
  qed
qed

lemma run_recency:
  "run zv es (NewCache zv sd) = Inr c \<Longrightarrow> recency_sorted es c \<and> reachable_inv c"
proof (induction es arbitrary: c rule: rev_induct)
  case Nil
  then have "c = NewCache zv sd" by simp
  then show ?case
    using reachable_inv_NewCache [of zv sd]
    by (simp add: recency_sorted_def entries_def) (simp add: NewCache_def)
next
  case (snoc e es)
  from run_inv [OF reachable_inv_NewCache, of zv es zv sd] obtain c1 where
    r1: "run zv es (NewCache zv sd) = Inr c1" by blast
  with snoc.IH have i1: "recency_sorted es c1" "reachable_inv c1" by simp_all
  from snoc.prems r1 have s: "step zv e c1 = Inr c"
    by (simp add: run_append split: sum.splits)
  from step_inv [OF i1(2), of zv e] s have "reachable_inv c" by simp
  with recency_sorted_step [OF i1(2) s i1(1)] show ?case by simp
qed

text \<open>
  C1. Let \<open>c\<close> be the state after any run \<open>es\<close> from a new cache, with size equal to
  the capacity, and \<open>k\<close> a key it does not hold. \<^verbatim>\<open>Set\<close> of \<open>k\<close> returns. The victim,
  the key of the record at the back of the recency list, is a held key whose last
  touch by a \<^verbatim>\<open>Get\<close> or \<^verbatim>\<open>Set\<close> of the run is earlier than the last touch of every
  other held key, in whatever bucket. In the state left the entries are the new one
  followed by the old ones without the victim's: the victim is no longer found, the
  new key is found with its value, every other key that was held is found with the
  value it had, and every other key is answered as before.
\<close>

theorem evict_least_recently_touched:
  assumes run: "run zv es (NewCache zv sd) = Inr c"
    and full: "csize c = word_of_nat MaxCacheSize"
    and absent: "k \<notin> fst ` set (entries c)"
  shows "\<exists>c' victim. Set k v ttl c = Inr c' \<and> lru c \<noteq> [] \<and>
           victim = key (heap c (last (lru c))) \<and>
           victim \<in> fst ` set (entries c) \<and> 0 < last_touch es victim \<and>
           (\<forall>k'\<in>fst ` set (entries c). k' \<noteq> victim \<longrightarrow>
               last_touch es victim < last_touch es k') \<and>
           entries c' = (k, v) # butlast (entries c) \<and>
           Get_result zv victim c' = Inr (zv, False) \<and>
           Get_result zv k c' = Inr (v, True) \<and>
           (\<forall>k' v'. (k', v') \<in> set (entries c) \<and> k' \<noteq> victim \<longrightarrow>
               Get_result zv k' c' = Inr (v', True)) \<and>
           (\<forall>k'. k' \<noteq> victim \<and> k' \<noteq> k \<longrightarrow> Get_result zv k' c' = Get_result zv k' c)"
proof -
  let ?es = "entries c"
  let ?victim = "key (heap c (last (lru c)))"
  from run_recency [OF run] have srt: "recency_sorted es c" and wf: "well_formed c"
    by (simp_all add: reachable_inv_def)
  from evict_back [OF wf full absent, of v ttl zv] obtain c' where
    s: "Set k v ttl c = Inr c'" and ne: "lru c \<noteq> []"
    and rest: "entries c' = (k, v) # butlast ?es"
      "Get_result zv ?victim c' = Inr (zv, False)"
      "Get_result zv k c' = Inr (v, True)"
      "\<forall>k' v'. (k', v') \<in> set ?es \<and> k' \<noteq> ?victim \<longrightarrow> Get_result zv k' c' = Inr (v', True)"
      "\<forall>k'. k' \<noteq> ?victim \<and> k' \<noteq> k \<longrightarrow> Get_result zv k' c' = Get_result zv k' c"
    by blast
  from ne have ne': "?es \<noteq> []" by (simp add: entries_def)
  have vic: "fst (last ?es) = ?victim" using ne by (simp add: entries_def last_map)
  from ne' have split: "?es = butlast ?es @ [last ?es]" by simp
  from ne' vic have live: "?victim \<in> fst ` set ?es" by (metis image_eqI last_in_set)
  from srt have pos: "\<forall>p\<in>set ?es. 0 < last_touch es (fst p)"
    and so: "sorted_wrt (\<lambda>p q. last_touch es (fst q) < last_touch es (fst p)) ?es"
    by (simp_all add: recency_sorted_def)
  from pos ne' vic have vpos: "0 < last_touch es ?victim" by (metis last_in_set)
  from so split have before: "\<forall>p\<in>set (butlast ?es). last_touch es ?victim < last_touch es (fst p)"
    by (metis (mono_tags, lifting) sorted_wrt_append list.set_intros(1) vic)
  have least: "last_touch es ?victim < last_touch es k'"
    if "k' \<in> fst ` set ?es" "k' \<noteq> ?victim" for k'
  proof -
    from that(1) obtain p where p: "p \<in> set ?es" "fst p = k'" by auto
    with that(2) vic have "p \<noteq> last ?es" by auto
    with p(1) split have "p \<in> set (butlast ?es)"
      by (metis Un_iff empty_iff empty_set insert_iff list.simps(15) set_append)
    with before p(2) show ?thesis by auto
  qed
  from s ne live vpos least rest show ?thesis by blast
qed

theorem evict_least_recently_touched_witness:
  "\<exists>c. run 0 touched (NewCache 0 seed0) = Inr c \<and>
       csize c = word_of_nat MaxCacheSize \<and> ''ffffff'' \<notin> fst ` set (entries c) \<and>
       entries c = [(''bb'', 7), (''a'', 1), (''eeeee'', 5), (''dddd'', 4), (''ccc'', 3)] \<and>
       key (heap c (last (lru c))) = ''ccc'' \<and>
       last_touch touched ''ccc'' = 3 \<and> last_touch touched ''dddd'' = 4 \<and>
       last_touch touched ''eeeee'' = 5 \<and> last_touch touched ''a'' = 6 \<and>
       last_touch touched ''bb'' = 7 \<and>
       (\<exists>c'. Set ''ffffff'' 6 (10::int) c = Inr c' \<and>
          entries c' = [(''ffffff'', 6), (''bb'', 7), (''a'', 1), (''eeeee'', 5), (''dddd'', 4)] \<and>
          Get_result 0 ''ccc'' c' = Inr (0, False) \<and>
          Get_result 0 ''ffffff'' c' = Inr (6, True) \<and>
          Get_result 0 ''a'' c' = Inr (1, True))"
proof -
  from run_inv [OF reachable_inv_NewCache, of 0 touched 0 seed0] obtain c where
    r: "run 0 touched (NewCache 0 seed0) = Inr c" by blast
  from r have f: "csize c = 5" "lru c = [1, 0, 4, 3, 2]"
    "entries c = [(''bb'', 7), (''a'', 1), (''eeeee'', 5), (''dddd'', 4), (''ccc'', 3)]"
    by (auto simp add: eval_defs touched_def)
  have full: "csize c = word_of_nat MaxCacheSize" using f(1) by (simp add: MaxCacheSize_def)
  have a: "''ffffff'' \<notin> fst ` set (entries c)" by (simp add: f(3))
  have v: "key (heap c (last (lru c))) = ''ccc''"
    using f(2,3) by (simp add: entries_def)
  have lt: "last_touch touched ''ccc'' = 3" "last_touch touched ''dddd'' = 4"
    "last_touch touched ''eeeee'' = 5" "last_touch touched ''a'' = 6"
    "last_touch touched ''bb'' = 7"
    by (simp_all add: touched_def five_def)
  from evict_least_recently_touched [OF r full a, of 6 10] obtain c' where
    "Set ''ffffff'' 6 10 c = Inr c'" "entries c' = (''ffffff'', 6) # butlast (entries c)"
    "Get_result 0 (key (heap c (last (lru c)))) c' = Inr (0, False)"
    "Get_result 0 ''ffffff'' c' = Inr (6, True)"
    "\<forall>k' v'. (k', v') \<in> set (entries c) \<and> k' \<noteq> key (heap c (last (lru c))) \<longrightarrow>
               Get_result 0 k' c' = Inr (v', True)"
    by blast
  then have "Set ''ffffff'' 6 (10::int) c = Inr c' \<and>
          entries c' = [(''ffffff'', 6), (''bb'', 7), (''a'', 1), (''eeeee'', 5), (''dddd'', 4)] \<and>
          Get_result 0 ''ccc'' c' = Inr (0, False) \<and>
          Get_result 0 ''ffffff'' c' = Inr (6, True) \<and>
          Get_result 0 ''a'' c' = Inr (1, True)"
    by (simp add: f(3) v)
  with r full a f(3) v lt show ?thesis by blast
qed

lemma keys_after_step:
  assumes r: "reachable_inv c" and s: "step zv e c = Inr c'"
    and k: "k \<in> fst ` set (entries c')"
  shows "k \<in> fst ` set (entries c) \<or> (\<exists>v ttl. e = CallSet k v ttl)"
proof (cases e)
  case (CallGet k0)
  with step_entries [OF r s] have e': "entries c' =
        (case map_of (entries c) k0 of None \<Rightarrow> entries c
         | Some v \<Rightarrow> (k0, v) # filter (\<lambda>p. fst p \<noteq> k0) (entries c))" by simp
  show ?thesis
  proof (cases "map_of (entries c) k0")
    case None
    with e' k show ?thesis by simp
  next
    case (Some v)
    then have "(k0, v) \<in> set (entries c)" by (rule map_of_SomeD)
    then have "k0 \<in> fst ` set (entries c)" by force
    with e' Some k show ?thesis by auto
  qed
next
  case (CallSet k0 v ttl)
  with step_entries [OF r s] have "entries c' = (k0, v) #
                (if k0 \<in> fst ` set (entries c) then filter (\<lambda>p. fst p \<noteq> k0) (entries c)
                 else if length (entries c) = MaxCacheSize then butlast (entries c)
                 else entries c)" by simp
  with k CallSet show ?thesis by (auto split: if_splits dest: in_set_butlastD)
next
  case (Tick d)
  with step_entries [OF r s] k show ?thesis by auto
next
  case (Expire tid)
  with step_entries [OF r s] k show ?thesis by auto
next
  case (Callback tid)
  with step_entries [OF r s] k show ?thesis by auto
qed

lemma keys_after_run:
  assumes "reachable_inv c" "run zv fs c = Inr c'" "k \<in> fst ` set (entries c')"
    and "\<forall>v ttl. CallSet k v ttl \<notin> set fs"
  shows "k \<in> fst ` set (entries c)"
  using assms
proof (induction fs arbitrary: c)
  case Nil
  then show ?case by simp
next
  case (Cons e fs)
  from step_inv [OF Cons.prems(1), of zv e] obtain c1 where
    s: "step zv e c = Inr c1" and r1: "reachable_inv c1" by blast
  with Cons.prems(2) have "run zv fs c1 = Inr c'" by simp
  with Cons.IH [OF r1] Cons.prems(3,4) have "k \<in> fst ` set (entries c1)" by simp
  with keys_after_step [OF Cons.prems(1) s] Cons.prems(4) show ?case by auto
qed

text \<open>
  \<open>last_touch\<close> counts every \<^verbatim>\<open>Get\<close> of a key, also one that misses. For the keys a
  state holds this makes no difference: when the last event of a run that names a held
  key is a \<^verbatim>\<open>Get\<close>, the key was held when that \<^verbatim>\<open>Get\<close> ran, so it was a hit.
\<close>

lemma last_Get_of_held_key_hits:
  assumes run: "run zv (es @ CallGet k # fs) (NewCache zv sd) = Inr c"
    and held: "k \<in> fst ` set (entries c)"
    and last: "\<forall>v ttl. CallSet k v ttl \<notin> set fs"
  shows "\<exists>c1 v c2. run zv es (NewCache zv sd) = Inr c1 \<and> Get zv k c1 = Inr ((v, True), c2)"
proof -
  from run_inv [OF reachable_inv_NewCache, of zv es zv sd] obtain c1 where
    r1: "run zv es (NewCache zv sd) = Inr c1" and i1: "reachable_inv c1" by blast
  from i1 have wf1: "well_formed c1" by (simp add: reachable_inv_def)
  from step_inv [OF i1, of zv "CallGet k"] obtain c2 where
    s: "step zv (CallGet k) c1 = Inr c2" and i2: "reachable_inv c2" by blast
  from run r1 s have "run zv fs c2 = Inr c" by (simp add: run_append)
  from keys_after_run [OF i2 this held last] have "k \<in> fst ` set (entries c2)" .
  with keys_after_step [OF i1 s] have "k \<in> fst ` set (entries c1)" by auto
  then obtain v where "map_of (entries c1) k = Some v"
    by (metis map_of_eq_None_iff not_Some_eq)
  with Get_entries [OF wf1, of zv k] r1 show ?thesis by auto
qed

section \<open>Delete and a timer that has expired\<close>

text \<open>
  C6 fails on the code where it says that \<^verbatim>\<open>delete\<close> cancels the timer of the record
  it removes. \<^verbatim>\<open>Set(k, v1, 2)\<close>; two time units pass and the timer expires, its callback
  started and waiting for the lock. The key is in the chain of its bucket, and a
  \<^verbatim>\<open>delete\<close> of it under the lock unlinks the record and makes the size 0, but its
  \<^verbatim>\<open>Stop\<close> leaves the timer as it was, running. When \<^verbatim>\<open>Set(k, v2, 100)\<close> then creates a
  new record for the key, the callback of the removed record's timer removes the new
  one.
\<close>

theorem delete_leaves_expired_timer_running:
  "\<exists>c1 c2 c3 c4. Set ''k'' (1::nat) 2 (NewCache 0 seed0) = Inr c1 \<and>
      entries (expire 0 (advance 2 c1)) = [(''k'', 1)] \<and>
      data (expire 0 (advance 2 c1)) ! 1 = Some 0 \<and>
      key (heap (expire 0 (advance 2 c1)) 0) = ''k'' \<and>
      tmr (heap (expire 0 (advance 2 c1)) 0) = Some 0 \<and>
      status (timers (expire 0 (advance 2 c1)) ! 0) = Running \<and>
      delete ((expire 0 (advance 2 c1))\<lparr>mtx := True\<rparr>) 1 ''k'' = Inr c2 \<and>
      entries c2 = [] \<and> csize c2 = 0 \<and> data c2 ! 1 = None \<and>
      status (timers c2 ! 0) = Running \<and>
      Set ''k'' 2 100 (c2\<lparr>mtx := False\<rparr>) = Inr c3 \<and> entries c3 = [(''k'', 2)] \<and>
      run_callback 0 c3 = Inr c4 \<and> now c4 = 2 \<and> entries c4 = [] \<and>
      Get 0 ''k'' c4 = Inr ((0, False), c4)"
  by (simp add: eval_defs)

text \<open>
  The same defect through the calls of the package alone: the timer of the oldest key
  expires, an insertion into the full cache evicts that key by \<^verbatim>\<open>delete\<close>, the key is
  set again, and the callback of the evicted record's timer removes the new record.
\<close>

lemma evicted_record_timer_erases_new_record:
  "\<exists>c d. run 0 [CallSet ''a'' 1 2, CallSet ''bb'' 2 100, CallSet ''ccc'' 3 100,
               CallSet ''dddd'' 4 100, CallSet ''eeeee'' 5 100, Tick 2, Expire 0,
               CallSet ''ffffff'' 6 100] (NewCache (0::nat) seed0) = Inr c \<and>
         Get_result 0 ''a'' c = Inr (0, False) \<and> status (timers c ! 0) = Running \<and>
         run 0 [CallSet ''a'' 9 100, Callback 0] c = Inr d \<and>
         now d = 2 \<and> Get_result 0 ''a'' d = Inr (0, False)"
  by (simp add: eval_defs)

end
